theory Spec2Isabelle
  imports Complex_Main
begin

section \<open>JavaScript values\<close>

text \<open>
  A JavaScript string is a sequence of UTF-16 code units. The texts of the server are
  modelled as lists of code units, so that the escapes of a JSON text (which may denote any
  code unit) stay inside the model; \<open>js\<close> reads an ASCII literal as such a list.
\<close>

type_synonym jsstring = "nat list"

definition js :: "string \<Rightarrow> jsstring" where
  "js s = map of_char s"

text \<open>
  The values that travel in event payloads and JSON bodies. A number is kept as the exact
  value of its decimal notation (rounding to a double is not modelled); an object is the
  list of its own properties.
\<close>

datatype jsval =
    JUndefined
  | JNull
  | JBoolean bool
  | JNumber rat
  | JString jsstring
  | JArray "jsval list"
  | JObject "(jsstring \<times> jsval) list"

section \<open>The room synchronisation server\<close>

subsection \<open>State\<close>

type_synonym sid = jsstring

text \<open>\<^verbatim>\<open>type DocumentState = { content: string; updatedAt: number }\<close>\<close>

record DocumentState =
  content :: jsstring
  updatedAt :: int

text \<open>
  The server state: the module-level map \<^verbatim>\<open>documents\<close>, the live sockets in the order
  of their connection, the closure variable \<^verbatim>\<open>activeRoom\<close> of each connection
  (\<^verbatim>\<open>null\<close> is \<open>None\<close>), and the room membership that Socket.IO keeps for each socket
  (\<^verbatim>\<open>socket.rooms\<close>).
\<close>

record server =
  documents :: "jsstring \<rightharpoonup> DocumentState"
  sockets :: "sid list"
  activeRoom :: "sid \<Rightarrow> jsstring option"
  rooms :: "sid \<Rightarrow> jsstring set"

definition init :: server where
  "init = \<lparr>documents = Map.empty, sockets = [], activeRoom = (\<lambda>_. None), rooms = (\<lambda>_. {})\<rparr>"

text \<open>The events the server sends to a client.\<close>

datatype message =
    InitialState DocumentState
  | PeerJoined sid
  | CodeChange jsstring
  | CursorUpdate sid jsval
  | PeerLeft sid

text \<open>
  The events the server receives from a connection. The argument of an event is
  \<open>NoPayload\<close> when the client sent none (or \<^verbatim>\<open>null\<close>), and \<open>Payload\<close> with the fields
  the handler reads from it otherwise: the room id (\<open>None\<close> where the field is absent), and
  the \<^verbatim>\<open>content\<close> or the \<^verbatim>\<open>cursor\<close>, which may hold any value.
\<close>

datatype 'a payload = NoPayload | Payload 'a

datatype event =
    OnConnection
  | OnJoinRoom "jsstring option payload"
  | OnCodeChange "(jsstring option \<times> jsval) payload"
  | OnCursorUpdate "(jsstring option \<times> jsval) payload"
  | OnDisconnect

type_synonym emission = "sid \<times> message"

text \<open>
  A handler that throws: nothing in the server catches the exception, and the process
  exits.
\<close>

datatype error = TypeError

subsection \<open>Socket.IO primitives\<close>

text \<open>\<^verbatim>\<open>socket.join(room)\<close> adds the socket to the room; it leaves no other room.\<close>

definition socket_join :: "sid \<Rightarrow> jsstring \<Rightarrow> server \<Rightarrow> server" where
  "socket_join p r s = s\<lparr>rooms := (rooms s)(p := insert r (rooms s p))\<rparr>"

text \<open>
  \<^verbatim>\<open>socket.to(room).emit(...)\<close> on the socket \<open>p\<close> sends to every live socket that is in
  the room, except the sockets that are in the room named by the id of \<open>p\<close>. A connected
  socket is in the room named by its own id, so the sender is among the excluded; so is
  every socket that has joined a room of that name.
\<close>

definition to_room :: "server \<Rightarrow> sid \<Rightarrow> jsstring \<Rightarrow> message \<Rightarrow> emission list" where
  "to_room s p r m = map (\<lambda>q. (q, m)) (filter (\<lambda>q. r \<in> rooms s q \<and> p \<notin> rooms s q) (sockets s))"

subsection \<open>Handlers\<close>

text \<open>
  \<^verbatim>\<open>io.on('connection', ...)\<close>: a new socket starts with \<^verbatim>\<open>activeRoom = null\<close>;
  Socket.IO has placed it in the room named by its own id.
\<close>

definition connection :: "sid \<Rightarrow> server \<Rightarrow> server" where
  "connection p s =
     s\<lparr>sockets := sockets s @ [p],
       activeRoom := (activeRoom s)(p := None),
       rooms := (rooms s)(p := {p})\<rparr>"

text \<open>
  \<^verbatim>\<open>socket.on('join_room', ({ roomId }) => ...)\<close>; \<open>now\<close> is what \<^verbatim>\<open>Date.now()\<close> reads.
  The parameter is destructured before the body runs, which throws when there is no
  payload.
\<close>

definition join_room ::
  "int \<Rightarrow> sid \<Rightarrow> jsstring option payload \<Rightarrow> server \<Rightarrow> error + server \<times> emission list" where
  "join_room now p arg s =
     (case arg of
        NoPayload \<Rightarrow> Inl TypeError
      | Payload roomId \<Rightarrow>
          (case roomId of
             None \<Rightarrow> Inr (s, [])
           | Some r \<Rightarrow>
               if r = [] then Inr (s, [])
               else
                 let s1 = socket_join p r (s\<lparr>activeRoom := (activeRoom s)(p := Some r)\<rparr>);
                     (s2, d) =
                       (case documents s1 r of
                          None \<Rightarrow>
                            (s1\<lparr>documents := (documents s1)(r \<mapsto> \<lparr>content = [], updatedAt = now\<rparr>)\<rparr>,
                             \<lparr>content = [], updatedAt = now\<rparr>)
                        | Some d \<Rightarrow> (s1, d))
                 in Inr (s2, (p, InitialState d) # to_room s2 p r (PeerJoined p))))"

text \<open>\<^verbatim>\<open>socket.on('code_change', ({ roomId, content }) => ...)\<close>\<close>

definition code_change ::
  "int \<Rightarrow> sid \<Rightarrow> (jsstring option \<times> jsval) payload \<Rightarrow> server \<Rightarrow> error + server \<times> emission list" where
  "code_change now p arg s =
     (case arg of
        NoPayload \<Rightarrow> Inl TypeError
      | Payload (roomId, c) \<Rightarrow>
          (case roomId of
             None \<Rightarrow> Inr (s, [])
           | Some r \<Rightarrow>
               if r = [] then Inr (s, [])
               else
                 (case c of
                    JString text \<Rightarrow>
                      Inr (s\<lparr>documents := (documents s)(r \<mapsto> \<lparr>content = text, updatedAt = now\<rparr>)\<rparr>,
                           to_room s p r (CodeChange text))
                  | _ \<Rightarrow> Inr (s, []))))"

text \<open>\<^verbatim>\<open>socket.on('cursor_update', ({ roomId, cursor }) => ...)\<close>\<close>

definition cursor_update ::
  "sid \<Rightarrow> (jsstring option \<times> jsval) payload \<Rightarrow> server \<Rightarrow> error + server \<times> emission list" where
  "cursor_update p arg s =
     (case arg of
        NoPayload \<Rightarrow> Inl TypeError
      | Payload (roomId, cur) \<Rightarrow>
          (case roomId of
             None \<Rightarrow> Inr (s, [])
           | Some r \<Rightarrow>
               if r = [] then Inr (s, []) else Inr (s, to_room s p r (CursorUpdate p cur))))"

text \<open>
  \<^verbatim>\<open>socket.on('disconnect', ...)\<close>: Socket.IO has taken the socket out of every room and
  out of the live sockets before the handler runs.
\<close>

definition disconnect :: "sid \<Rightarrow> server \<Rightarrow> server \<times> emission list" where
  "disconnect p s =
     (let s1 = s\<lparr>sockets := removeAll p (sockets s), rooms := (rooms s)(p := {})\<rparr>
      in case activeRoom s p of
           None \<Rightarrow> (s1, [])
         | Some r \<Rightarrow> if r = [] then (s1, []) else (s1, to_room s1 p r (PeerLeft p)))"

subsection \<open>The event loop\<close>

text \<open>
  One event is handled to completion before the next. An event carries the reading of the
  clock at its handling and the socket it comes from. Socket ids are unique, so a
  connection event for a live id does not occur; events of a socket that is not live have
  no handler. A step gives the new state and the messages sent, or the error with which
  the process exits; after that there is no state, and a trace ends there.
\<close>

type_synonym occurrence = "int \<times> sid \<times> event"

fun step :: "server \<Rightarrow> occurrence \<Rightarrow> error + server \<times> emission list" where
  "step s (now, p, OnConnection) =
     (if p \<in> set (sockets s) then Inr (s, []) else Inr (connection p s, []))"
| "step s (now, p, OnJoinRoom arg) =
     (if p \<in> set (sockets s) then join_room now p arg s else Inr (s, []))"
| "step s (now, p, OnCodeChange arg) =
     (if p \<in> set (sockets s) then code_change now p arg s else Inr (s, []))"
| "step s (now, p, OnCursorUpdate arg) =
     (if p \<in> set (sockets s) then cursor_update p arg s else Inr (s, []))"
| "step s (now, p, OnDisconnect) =
     (if p \<in> set (sockets s) then Inr (disconnect p s) else Inr (s, []))"

fun run :: "server \<Rightarrow> occurrence list \<Rightarrow> error + server" where
  "run s [] = Inr s"
| "run s (e # es) = (case step s e of Inl err \<Rightarrow> Inl err | Inr (s', out) \<Rightarrow> run s' es)"

subsection \<open>Vocabulary for traces\<close>

text \<open>
  An occurrence is handled in a state when its socket is live there. It is a join naming
  \<open>r\<close> when it is a \<^verbatim>\<open>join_room\<close> event with the non-empty room id \<open>r\<close>, and an accepted
  mutation naming \<open>r\<close> when it is a \<^verbatim>\<open>code_change\<close> event with the non-empty room id \<open>r\<close>
  and a string as content. It is the disconnect of \<open>p\<close> when it is the \<^verbatim>\<open>disconnect\<close> event
  of that socket. It throws in a state when it is handled there and has no payload.
\<close>

definition handled :: "server \<Rightarrow> occurrence \<Rightarrow> bool" where
  "handled s e = (fst (snd e) \<in> set (sockets s))"

definition join_named :: "occurrence \<Rightarrow> jsstring \<Rightarrow> bool" where
  "join_named e r = (r \<noteq> [] \<and> snd (snd e) = OnJoinRoom (Payload (Some r)))"

definition mutation_named :: "occurrence \<Rightarrow> jsstring \<Rightarrow> bool" where
  "mutation_named e r =
     (r \<noteq> [] \<and> (\<exists>c. snd (snd e) = OnCodeChange (Payload (Some r, JString c))))"

definition disconnect_of :: "occurrence \<Rightarrow> sid \<Rightarrow> bool" where
  "disconnect_of e p = (fst (snd e) = p \<and> snd (snd e) = OnDisconnect)"

definition throws :: "server \<Rightarrow> occurrence \<Rightarrow> bool" where
  "throws s e =
     (handled s e \<and>
      (snd (snd e) = OnJoinRoom NoPayload \<or> snd (snd e) = OnCodeChange NoPayload
       \<or> snd (snd e) = OnCursorUpdate NoPayload))"

text \<open>
  The live sockets that are in the Socket.IO room \<open>r\<close>: those that have joined \<open>r\<close> on
  their connection, and the socket whose own id is \<open>r\<close> (lemma \<open>member_iff_joined\<close>).
\<close>

definition members :: "server \<Rightarrow> jsstring \<Rightarrow> sid set" where
  "members s r = {q \<in> set (sockets s). r \<in> rooms s q}"

subsection \<open>Scenarios\<close>

text \<open>
  The scenario of the specification: three connections \<open>A\<close>, \<open>B\<close> and \<open>C\<close>, of which
  \<open>A\<close> and \<open>B\<close> have joined the room \<open>demo\<close>; and the state the trace leads to.
\<close>

definition demo_trace :: "occurrence list" where
  "demo_trace =
     [(1, js ''A'', OnConnection),
      (2, js ''B'', OnConnection),
      (3, js ''C'', OnConnection),
      (4, js ''A'', OnJoinRoom (Payload (Some (js ''demo'')))),
      (5, js ''B'', OnJoinRoom (Payload (Some (js ''demo''))))]"

definition demo_state :: server where
  "demo_state =
     \<lparr>documents = [js ''demo'' \<mapsto> \<lparr>content = [], updatedAt = 4\<rparr>],
      sockets = [js ''A'', js ''B'', js ''C''],
      activeRoom = (activeRoom init)(js ''A'' \<mapsto> js ''demo'', js ''B'' \<mapsto> js ''demo''),
      rooms = (rooms init)
        (js ''A'' := {js ''A'', js ''demo''},
         js ''B'' := {js ''B'', js ''demo''},
         js ''C'' := {js ''C''})\<rparr>"

text \<open>\<open>A\<close> and \<open>B\<close> join \<open>r1\<close>; then \<open>A\<close> joins \<open>r2\<close>.\<close>

definition rejoin_trace :: "occurrence list" where
  "rejoin_trace =
     [(1, js ''A'', OnConnection),
      (2, js ''B'', OnConnection),
      (3, js ''A'', OnJoinRoom (Payload (Some (js ''r1'')))),
      (4, js ''B'', OnJoinRoom (Payload (Some (js ''r1'')))),
      (5, js ''A'', OnJoinRoom (Payload (Some (js ''r2''))))]"

definition rejoin_state :: server where
  "rejoin_state =
     \<lparr>documents = [js ''r1'' \<mapsto> \<lparr>content = [], updatedAt = 3\<rparr>,
                   js ''r2'' \<mapsto> \<lparr>content = [], updatedAt = 5\<rparr>],
      sockets = [js ''A'', js ''B''],
      activeRoom = (activeRoom init)(js ''A'' \<mapsto> js ''r2'', js ''B'' \<mapsto> js ''r1''),
      rooms = (rooms init)
        (js ''A'' := {js ''A'', js ''r1'', js ''r2''},
         js ''B'' := {js ''B'', js ''r1''})\<rparr>"

text \<open>
  \<open>A\<close> joins the room named by the id of \<open>B\<close> and then \<open>demo\<close>; \<open>B\<close> joins \<open>demo\<close>;
  \<open>C\<close> joins \<open>demo\<close> and then \<open>other\<close>.
\<close>

definition crossed_trace :: "occurrence list" where
  "crossed_trace =
     [(1, js ''A'', OnConnection),
      (2, js ''B'', OnConnection),
      (3, js ''C'', OnConnection),
      (4, js ''A'', OnJoinRoom (Payload (Some (js ''B'')))),
      (5, js ''A'', OnJoinRoom (Payload (Some (js ''demo'')))),
      (6, js ''B'', OnJoinRoom (Payload (Some (js ''demo'')))),
      (7, js ''C'', OnJoinRoom (Payload (Some (js ''demo'')))),
      (8, js ''C'', OnJoinRoom (Payload (Some (js ''other''))))]"

definition crossed_state :: server where
  "crossed_state =
     \<lparr>documents = [js ''B'' \<mapsto> \<lparr>content = [], updatedAt = 4\<rparr>,
                   js ''demo'' \<mapsto> \<lparr>content = [], updatedAt = 5\<rparr>,
                   js ''other'' \<mapsto> \<lparr>content = [], updatedAt = 8\<rparr>],
      sockets = [js ''A'', js ''B'', js ''C''],
      activeRoom = (activeRoom init)
        (js ''A'' \<mapsto> js ''demo'', js ''B'' \<mapsto> js ''demo'', js ''C'' \<mapsto> js ''other''),
      rooms = (rooms init)
        (js ''A'' := {js ''A'', js ''B'', js ''demo''},
         js ''B'' := {js ''B'', js ''demo''},
         js ''C'' := {js ''C'', js ''demo'', js ''other''})\<rparr>"

text \<open>
  \<open>A\<close> joins the room named by the id of \<open>C\<close> and then \<open>demo\<close>; \<open>B\<close> joins \<open>demo\<close>;
  \<open>C\<close> joins nothing.
\<close>

definition outsider_trace :: "occurrence list" where
  "outsider_trace =
     [(1, js ''A'', OnConnection),
      (2, js ''B'', OnConnection),
      (3, js ''C'', OnConnection),
      (4, js ''A'', OnJoinRoom (Payload (Some (js ''C'')))),
      (5, js ''A'', OnJoinRoom (Payload (Some (js ''demo'')))),
      (6, js ''B'', OnJoinRoom (Payload (Some (js ''demo''))))]"

definition outsider_state :: server where
  "outsider_state =
     \<lparr>documents = [js ''C'' \<mapsto> \<lparr>content = [], updatedAt = 4\<rparr>,
                   js ''demo'' \<mapsto> \<lparr>content = [], updatedAt = 5\<rparr>],
      sockets = [js ''A'', js ''B'', js ''C''],
      activeRoom = (activeRoom init)(js ''A'' \<mapsto> js ''demo'', js ''B'' \<mapsto> js ''demo''),
      rooms = (rooms init)
        (js ''A'' := {js ''A'', js ''C'', js ''demo''},
         js ''B'' := {js ''B'', js ''demo''},
         js ''C'' := {js ''C''})\<rparr>"

section \<open>\<^verbatim>\<open>JSON.parse\<close>\<close>

text \<open>
  The built-in \<^verbatim>\<open>JSON.parse\<close> (without reviver) on a text: \<open>Some\<close> value, or \<open>None\<close> where
  it throws a \<^verbatim>\<open>SyntaxError\<close>. The grammar is that of ECMA-404: white space is space, tab,
  line feed and carriage return; the code units are written as numbers.
\<close>

definition is_ws :: "nat \<Rightarrow> bool" where
  "is_ws c = (c = 32 \<or> c = 9 \<or> c = 10 \<or> c = 13)"

definition skip_ws :: "jsstring \<Rightarrow> jsstring" where
  "skip_ws t = dropWhile is_ws t"

definition is_digit :: "nat \<Rightarrow> bool" where
  "is_digit c = (48 \<le> c \<and> c \<le> 57)"

definition digits_value :: "jsstring \<Rightarrow> nat" where
  "digits_value ds = foldl (\<lambda>a c. 10 * a + (c - 48)) 0 ds"

definition hex_value :: "nat \<Rightarrow> nat option" where
  "hex_value c =
     (if 48 \<le> c \<and> c \<le> 57 then Some (c - 48)
      else if 65 \<le> c \<and> c \<le> 70 then Some (c - 55)
      else if 97 \<le> c \<and> c \<le> 102 then Some (c - 87)
      else None)"

text \<open>The single-character escapes: \<^verbatim>\<open>\" \\ \/ \b \f \n \r \t\<close>.\<close>

definition unescape :: "nat \<Rightarrow> nat option" where
  "unescape e =
     (if e = 34 then Some 34
      else if e = 92 then Some 92
      else if e = 47 then Some 47
      else if e = 98 then Some 8
      else if e = 102 then Some 12
      else if e = 110 then Some 10
      else if e = 114 then Some 13
      else if e = 116 then Some 9
      else None)"

text \<open>
  The characters of a string after its opening quote, up to the closing quote: the decoded
  string and the rest of the text. A control character, an unknown escape or the end of the
  text inside the string is an error.
\<close>

fun json_chars :: "jsstring \<Rightarrow> jsstring \<Rightarrow> (jsstring \<times> jsstring) option" where
  "json_chars acc [] = None"
| "json_chars acc [c] = (if c = 34 then Some (rev acc, []) else None)"
| "json_chars acc (c # e # es) =
     (if c = 34 then Some (rev acc, e # es)
      else if c = 92 then
        (if e = 117 then
           (case es of
              h1 # h2 # h3 # h4 # r \<Rightarrow>
                (case (hex_value h1, hex_value h2, hex_value h3, hex_value h4) of
                   (Some a, Some b, Some c', Some d) \<Rightarrow>
                     json_chars ((((a * 16 + b) * 16 + c') * 16 + d) # acc) r
                 | _ \<Rightarrow> None)
            | _ \<Rightarrow> None)
         else
           (case unescape e of
              Some u \<Rightarrow> json_chars (u # acc) es
            | None \<Rightarrow> None))
      else if c < 32 then None
      else json_chars (c # acc) (e # es))"

text \<open>
  A number: an optional minus, an integer part without leading zero, an optional fraction
  and an optional exponent; the value and the rest of the text.
\<close>

definition json_int_part :: "jsstring \<Rightarrow> jsstring" where
  "json_int_part t = (case t of [] \<Rightarrow> [] | c # r \<Rightarrow> if c = 48 then [c] else takeWhile is_digit t)"

definition json_number :: "jsstring \<Rightarrow> (rat \<times> jsstring) option" where
  "json_number t =
     (let neg = (take 1 t = [45]);
          t1 = (if neg then drop 1 t else t);
          ip = json_int_part t1;
          t2 = drop (length ip) t1;
          has_frac = (take 1 t2 = [46]);
          fp = (if has_frac then takeWhile is_digit (drop 1 t2) else []);
          t3 = (if has_frac then drop (Suc (length fp)) t2 else t2);
          has_exp = (take 1 t3 = [101] \<or> take 1 t3 = [69]);
          t4 = drop 1 t3;
          eneg = (has_exp \<and> take 1 t4 = [45]);
          t5 = (if take 1 t4 = [45] \<or> take 1 t4 = [43] then drop 1 t4 else t4);
          ep = (if has_exp then takeWhile is_digit t5 else []);
          t6 = (if has_exp then drop (length ep) t5 else t3);
          m = of_nat (digits_value ip) + of_nat (digits_value fp) / 10 ^ length fp;
          x = (if eneg then m / 10 ^ digits_value ep else m * 10 ^ digits_value ep)
      in if ip = [] \<or> (has_frac \<and> fp = []) \<or> (has_exp \<and> ep = []) then None
         else Some (if neg then - x else x, t6))"

text \<open>Defining a property of an object: a later duplicate key replaces the value.\<close>

fun obj_put :: "jsstring \<Rightarrow> jsval \<Rightarrow> (jsstring \<times> jsval) list \<Rightarrow> (jsstring \<times> jsval) list" where
  "obj_put k v [] = [(k, v)]"
| "obj_put k v ((k', v') # kvs) = (if k = k' then (k, v) # kvs else (k', v') # obj_put k v kvs)"

text \<open>
  A value, the elements of an array after its opening bracket, and the members of an object
  after its opening brace. The first argument bounds the depth of the recursion; every
  second call at least consumes a character, so \<open>2 * length t + 2\<close> is enough for a text
  \<open>t\<close> (lemma \<open>JSON_parse_fuel\<close>).
\<close>

fun json_value :: "nat \<Rightarrow> jsstring \<Rightarrow> (jsval \<times> jsstring) option"
  and json_elements :: "nat \<Rightarrow> jsval list \<Rightarrow> jsstring \<Rightarrow> (jsval list \<times> jsstring) option"
  and json_members ::
    "nat \<Rightarrow> (jsstring \<times> jsval) list \<Rightarrow> jsstring \<Rightarrow> ((jsstring \<times> jsval) list \<times> jsstring) option"
where
  "json_value 0 t = None"
| "json_value (Suc n) t =
     (case skip_ws t of
        [] \<Rightarrow> None
      | c # cs \<Rightarrow>
          if c = 123 then
            (case skip_ws cs of
               [] \<Rightarrow> None
             | d # ds \<Rightarrow>
                 if d = 125 then Some (JObject [], ds)
                 else
                   (case json_members n [] cs of
                      None \<Rightarrow> None
                    | Some (kvs, r) \<Rightarrow> Some (JObject kvs, r)))
          else if c = 91 then
            (case skip_ws cs of
               [] \<Rightarrow> None
             | d # ds \<Rightarrow>
                 if d = 93 then Some (JArray [], ds)
                 else
                   (case json_elements n [] cs of
                      None \<Rightarrow> None
                    | Some (vs, r) \<Rightarrow> Some (JArray vs, r)))
          else if c = 34 then
            (case json_chars [] cs of
               None \<Rightarrow> None
             | Some (str, r) \<Rightarrow> Some (JString str, r))
          else if take 4 (c # cs) = js ''true'' then Some (JBoolean True, drop 4 (c # cs))
          else if take 5 (c # cs) = js ''false'' then Some (JBoolean False, drop 5 (c # cs))
          else if take 4 (c # cs) = js ''null'' then Some (JNull, drop 4 (c # cs))
          else
            (case json_number (c # cs) of
               None \<Rightarrow> None
             | Some (x, r) \<Rightarrow> Some (JNumber x, r)))"
| "json_elements 0 acc t = None"
| "json_elements (Suc n) acc t =
     (case json_value n t of
        None \<Rightarrow> None
      | Some (v, r) \<Rightarrow>
          (case skip_ws r of
             [] \<Rightarrow> None
           | c # cs \<Rightarrow>
               if c = 44 then json_elements n (acc @ [v]) cs
               else if c = 93 then Some (acc @ [v], cs)
               else None))"
| "json_members 0 acc t = None"
| "json_members (Suc n) acc t =
     (case skip_ws t of
        [] \<Rightarrow> None
      | c # cs \<Rightarrow>
          if c \<noteq> 34 then None
          else
            (case json_chars [] cs of
               None \<Rightarrow> None
             | Some (k, r) \<Rightarrow>
                 (case skip_ws r of
                    [] \<Rightarrow> None
                  | d # ds \<Rightarrow>
                      if d \<noteq> 58 then None
                      else
                        (case json_value n ds of
                           None \<Rightarrow> None
                         | Some (v, r2) \<Rightarrow>
                             (case skip_ws r2 of
                                [] \<Rightarrow> None
                              | e # es \<Rightarrow>
                                  if e = 44 then json_members n (obj_put k v acc) es
                                  else if e = 125 then Some (obj_put k v acc, es)
                                  else None)))))"

definition JSON_parse :: "jsstring \<Rightarrow> jsval option" where
  "JSON_parse t =
     (case json_value (2 * length t + 2) t of
        None \<Rightarrow> None
      | Some (v, r) \<Rightarrow> if skip_ws r = [] then Some v else None)"

section \<open>The completion endpoint\<close>

subsection \<open>Configuration, request and response\<close>

text \<open>
  \<^verbatim>\<open>process.env.GEMINI_API_KEY\<close> and \<^verbatim>\<open>process.env.GEMINI_MODEL\<close>; an unset variable is
  \<open>None\<close>.
\<close>

record config =
  GEMINI_API_KEY :: "jsstring option"
  GEMINI_MODEL_env :: "jsstring option"

definition GEMINI_MODEL :: "config \<Rightarrow> jsstring" where
  "GEMINI_MODEL cfg =
     (case GEMINI_MODEL_env cfg of None \<Rightarrow> js ''gemini-1.5-flash-latest'' | Some m \<Rightarrow> m)"

text \<open>
  The JSON body of a request (\<^verbatim>\<open>code\<close>, \<^verbatim>\<open>language\<close>, \<^verbatim>\<open>cursor\<close>, \<^verbatim>\<open>instructions\<close>), with
  the types the handler expects; a field that the body omits is \<open>None\<close>. A request without
  a body is \<open>None\<close> as a whole.
\<close>

record completions_body =
  req_code :: "jsstring option"
  req_language :: "jsstring option"
  req_cursor :: "int option"
  req_instructions :: "jsstring option"

record response =
  status :: nat
  body :: jsval

text \<open>
  What \<^verbatim>\<open>await axios.post(...)\<close> gives: the text of the first part of the first candidate
  of the response data (\<open>None\<close> where the optional chain ends in \<^verbatim>\<open>undefined\<close>), or the error
  thrown, with the status and data of its \<^verbatim>\<open>response\<close> (if it has one) and its
  \<^verbatim>\<open>message\<close>.
\<close>

datatype axios_result =
    Resolved "jsstring option"
  | Rejected "(nat \<times> jsval) option" "jsstring option"

subsection \<open>Building the prompt\<close>

text \<open>\<^verbatim>\<open>String.prototype.slice\<close>: a negative index counts from the end.\<close>

definition slice :: "jsstring \<Rightarrow> int \<Rightarrow> int \<Rightarrow> jsstring" where
  "slice str start fin =
     (let len = int (length str);
          from = (if start < 0 then max (len + start) 0 else min start len);
          to = (if fin < 0 then max (len + fin) 0 else min fin len)
      in if from < to then take (nat (to - from)) (drop (nat from) str) else [])"

text \<open>
  The decimal notation of an integer, as a template literal prints an integer number
  (below \<open>10\<^sup>2\<^sup>1\<close> in magnitude).
\<close>

fun decimal_nat :: "nat \<Rightarrow> jsstring" where
  "decimal_nat n = (if n < 10 then [48 + n] else decimal_nat (n div 10) @ [48 + n mod 10])"

definition decimal :: "int \<Rightarrow> jsstring" where
  "decimal i = (if i < 0 then 45 # decimal_nat (nat (- i)) else decimal_nat (nat i))"

text \<open>\<^verbatim>\<open>.filter(Boolean).join(sep)\<close> on an array of strings and \<^verbatim>\<open>undefined\<close>.\<close>

definition filter_Boolean :: "jsstring option list \<Rightarrow> jsstring list" where
  "filter_Boolean xs = concat (map (\<lambda>x. case x of None \<Rightarrow> [] | Some t \<Rightarrow> if t = [] then [] else [t]) xs)"

fun join :: "jsstring \<Rightarrow> jsstring list \<Rightarrow> jsstring" where
  "join sep [] = []"
| "join sep [x] = x"
| "join sep (x # y # ys) = x @ sep @ join sep (y # ys)"

definition systemPrompt :: jsstring where
  "systemPrompt =
     join (js '' '')
       [js ''You are an AI pair programmer that only returns JSON.'',
        js ''Output must be a JSON object with shape:'',
        js ''{ '' @ [34] @ js ''completions'' @ [34] @ js '': [ { '' @ [34] @ js ''insertText''
          @ [34] @ js '': string, '' @ [34] @ js ''displayText'' @ [34] @ js '': string } ] }'',
        js ''Make insertText directly pasteable at the cursor, no markdown fences.'']"

definition userPrompt :: "jsstring \<Rightarrow> jsstring \<Rightarrow> int \<Rightarrow> jsstring option \<Rightarrow> jsstring" where
  "userPrompt code language cursor instructions =
     join [10]
       (filter_Boolean
          [Some (js ''Language: '' @ language),
           Some (js ''Cursor offset: '' @ decimal cursor),
           (case instructions of
              None \<Rightarrow> None
            | Some i \<Rightarrow> if i = [] then None else Some (js ''Additional instructions: '' @ i)),
           Some (js ''---- CURRENT FILE START ----''),
           Some (slice code (max 0 (cursor - 2000)) cursor),
           Some (js ''<CURSOR>''),
           Some (slice code cursor (cursor + 2000)),
           Some (js ''---- CURRENT FILE END ----'')])"

text \<open>The request sent to the provider: the URL and the JSON body.\<close>

definition provider_request ::
  "jsstring \<Rightarrow> jsstring \<Rightarrow> jsstring \<Rightarrow> jsstring \<Rightarrow> int \<Rightarrow> jsstring option \<Rightarrow> jsstring \<times> jsval" where
  "provider_request model key code language cursor instructions =
     (js ''https://generativelanguage.googleapis.com/v1beta/models/'' @ model
        @ js '':generateContent?key='' @ key,
      JObject
        [(js ''contents'',
          JArray
            [JObject
               [(js ''role'', JString (js ''user'')),
                (js ''parts'',
                 JArray
                   [JObject [(js ''text'', JString systemPrompt)],
                    JObject [(js ''text'', JString (userPrompt code language cursor instructions))]])]]),
         (js ''generationConfig'',
          JObject
            [(js ''temperature'', JNumber (2 / 10)),
             (js ''topK'', JNumber 40),
             (js ''topP'', JNumber (95 / 100)),
             (js ''maxOutputTokens'', JNumber 256)])])"

subsection \<open>The handler\<close>

definition error_response :: "nat \<Rightarrow> jsval \<Rightarrow> response" where
  "error_response st e = \<lparr>status = st, body = JObject [(js ''error'', e)]\<rparr>"

text \<open>The payload that wraps a text that \<^verbatim>\<open>JSON.parse\<close> rejects.\<close>

definition wrapped :: "jsstring \<Rightarrow> jsval" where
  "wrapped textResponse =
     JObject
       [(js ''completions'',
         JArray
           [JObject
              [(js ''insertText'', JString textResponse),
               (js ''displayText'', JString (js ''Gemini suggestion''))]])]"

text \<open>
  The handler from the provider's answer on: the check of \<^verbatim>\<open>textResponse\<close>, the inner
  \<^verbatim>\<open>try\<close> around \<^verbatim>\<open>JSON.parse\<close> (the argument \<open>parse\<close>, \<open>None\<close> where it throws), and the
  outer \<^verbatim>\<open>catch\<close>.
\<close>

definition completion_response :: "(jsstring \<Rightarrow> jsval option) \<Rightarrow> axios_result \<Rightarrow> response" where
  "completion_response parse res =
     (case res of
        Resolved textResponse \<Rightarrow>
          (case textResponse of
             None \<Rightarrow> error_response 500 (JString (js ''No completion returned from Gemini''))
           | Some t \<Rightarrow>
               if t = [] then error_response 500 (JString (js ''No completion returned from Gemini''))
               else
                 \<lparr>status = 200,
                  body = (case parse t of Some completionsPayload \<Rightarrow> completionsPayload
                          | None \<Rightarrow> wrapped t)\<rparr>)
      | Rejected resp message \<Rightarrow>
          error_response
            (case resp of None \<Rightarrow> 500 | Some (st, d) \<Rightarrow> st)
            (case (case resp of None \<Rightarrow> JUndefined | Some (st, d) \<Rightarrow> d) of
               JUndefined \<Rightarrow>
                 (case message of None \<Rightarrow> JString (js ''Unknown error'') | Some m \<Rightarrow> JString m)
             | JNull \<Rightarrow>
                 (case message of None \<Rightarrow> JString (js ''Unknown error'') | Some m \<Rightarrow> JString m)
             | d \<Rightarrow> d))"

text \<open>
  \<^verbatim>\<open>app.post('/api/completions', ...)\<close>: \<open>post\<close> is \<^verbatim>\<open>axios.post\<close>, \<open>parse\<close> is
  \<^verbatim>\<open>JSON.parse\<close>. The destructuring gives a field its default only where it is absent.
\<close>

definition post_completions ::
  "config \<Rightarrow> (jsstring \<times> jsval \<Rightarrow> axios_result) \<Rightarrow> (jsstring \<Rightarrow> jsval option) \<Rightarrow>
   completions_body option \<Rightarrow> response" where
  "post_completions cfg post parse req_body =
     (case GEMINI_API_KEY cfg of
        None \<Rightarrow> error_response 500 (JString (js ''GEMINI_API_KEY is not configured''))
      | Some key \<Rightarrow>
          if key = [] then error_response 500 (JString (js ''GEMINI_API_KEY is not configured''))
          else
            let b = (case req_body of
                       None \<Rightarrow>
                         \<lparr>req_code = None, req_language = None, req_cursor = None,
                          req_instructions = None\<rparr>
                     | Some b \<Rightarrow> b);
                code = (case req_code b of None \<Rightarrow> [] | Some c \<Rightarrow> c);
                language = (case req_language b of None \<Rightarrow> js ''typescript'' | Some l \<Rightarrow> l);
                cursor = (case req_cursor b of None \<Rightarrow> 0 | Some n \<Rightarrow> n);
                instructions = req_instructions b
            in completion_response parse
                 (post (provider_request (GEMINI_MODEL cfg) key code language cursor instructions)))"

subsection \<open>The shape of a completions payload, as the specification words it\<close>

text \<open>
  \<^verbatim>\<open>{ completions: [ { insertText, displayText } ] }\<close> with both texts strings. The handler
  has no such check; the predicate states what the specification calls "JSON of that shape".
\<close>

definition spec_completion_item :: "jsval \<Rightarrow> bool" where
  "spec_completion_item v =
     (case v of
        JObject kvs \<Rightarrow>
          (case (map_of kvs (js ''insertText''), map_of kvs (js ''displayText'')) of
             (Some (JString a), Some (JString b)) \<Rightarrow> True
           | _ \<Rightarrow> False)
      | _ \<Rightarrow> False)"

definition spec_completions_shape :: "jsval \<Rightarrow> bool" where
  "spec_completions_shape v =
     (case v of
        JObject kvs \<Rightarrow>
          (case map_of kvs (js ''completions'') of
             Some (JArray xs) \<Rightarrow> list_all spec_completion_item xs
           | _ \<Rightarrow> False)
      | _ \<Rightarrow> False)"

subsection \<open>Scenarios\<close>

text \<open>A provider that answers every request with the text \<open>t\<close>.\<close>

definition provider_returning :: "jsstring \<Rightarrow> jsstring \<times> jsval \<Rightarrow> axios_result" where
  "provider_returning t req = Resolved (Some t)"

text \<open>A configuration with a credential and the default model.\<close>

definition demo_config :: config where
  "demo_config = \<lparr>GEMINI_API_KEY = Some (js ''secret''), GEMINI_MODEL_env = None\<rparr>"

text \<open>The request \<^verbatim>\<open>{ code: "print(", language: "python", cursor: 6 }\<close>.\<close>

definition demo_body :: completions_body where
  "demo_body =
     \<lparr>req_code = Some (js ''print(''), req_language = Some (js ''python''),
      req_cursor = Some 6, req_instructions = None\<rparr>"

section \<open>Properties of the room synchronisation server\<close>

subsection \<open>Auxiliary facts\<close>

lemmas sync_defs =
  init_def connection_def join_room_def code_change_def cursor_update_def disconnect_def
  socket_join_def to_room_def js_def Let_def handled_def join_named_def mutation_named_def
  members_def demo_trace_def disconnect_of_def

lemma run_append:
  "run s (xs @ ys) = (case run s xs of Inl err \<Rightarrow> Inl err | Inr s' \<Rightarrow> run s' ys)"
  by (induction xs arbitrary: s) (auto split: sum.splits)

lemma run_append_Inr:
  "run s (xs @ ys) = Inr s'' \<longleftrightarrow> (\<exists>s'. run s xs = Inr s' \<and> run s' ys = Inr s'')"
  by (simp add: run_append split: sum.splits)

lemma run_Cons_Inr:
  "run s (e # es) = Inr s'' \<longleftrightarrow> (\<exists>s' out. step s e = Inr (s', out) \<and> run s' es = Inr s'')"
  by (auto split: sum.splits)

lemma run_snoc_Inr:
  "run s (xs @ [e]) = Inr s'' \<longleftrightarrow> (\<exists>s' out. run s xs = Inr s' \<and> step s' e = Inr (s'', out))"
  unfolding run_append_Inr run_Cons_Inr by auto

text \<open>What a step does to the store.\<close>

lemma documents_step:
  assumes "step s e = Inr (s', out)"
  shows "documents s' =
     (if handled s e then
        (case snd (snd e) of
           OnJoinRoom (Payload (Some r)) \<Rightarrow>
             if r = [] \<or> documents s r \<noteq> None then documents s
             else (documents s)(r \<mapsto> \<lparr>content = [], updatedAt = fst e\<rparr>)
         | OnCodeChange (Payload (Some r, JString c)) \<Rightarrow>
             if r = [] then documents s
             else (documents s)(r \<mapsto> \<lparr>content = c, updatedAt = fst e\<rparr>)
         | _ \<Rightarrow> documents s)
      else documents s)"
proof -
  obtain now p ev where e: "e = (now, p, ev)"
    by (cases e) auto
  show ?thesis
  proof (cases ev)
    case OnConnection
    then show ?thesis using assms
      by (auto simp: e handled_def connection_def split: if_splits)
  next
    case (OnJoinRoom arg)
    then show ?thesis using assms
      by (cases arg)
        (auto simp: e handled_def join_room_def socket_join_def Let_def
          split: if_splits option.splits)
  next
    case (OnCodeChange arg)
    then show ?thesis using assms
      by (cases arg)
        (auto simp: e handled_def code_change_def split: if_splits option.splits jsval.splits)
  next
    case (OnCursorUpdate arg)
    then show ?thesis using assms
      by (cases arg)
        (auto simp: e handled_def cursor_update_def split: if_splits option.splits)
  next
    case OnDisconnect
    then show ?thesis using assms
      by (auto simp: e handled_def disconnect_def Let_def split: if_splits option.splits)
  qed
qed

lemma dom_documents_step:
  assumes "step s e = Inr (s', out)"
  shows "dom (documents s') =
     dom (documents s) \<union> {r. handled s e \<and> (join_named e r \<or> mutation_named e r)}"
  unfolding documents_step [OF assms]
  by (auto simp: join_named_def mutation_named_def
      split: event.splits payload.splits option.splits jsval.splits if_splits)

lemma dom_documents_run:
  "run s evs = Inr s' \<Longrightarrow>
   dom (documents s') =
     dom (documents s) \<union>
       {r. \<exists>xs e ys sx. evs = xs @ e # ys \<and> run s xs = Inr sx \<and> handled sx e \<and>
            (join_named e r \<or> mutation_named e r)}"
proof (induction evs arbitrary: s)
  case Nil
  then show ?case by simp
next
  case (Cons e0 es)
  from Cons.prems obtain s1 out where st: "step s e0 = Inr (s1, out)" and rn: "run s1 es = Inr s'"
    by (blast dest: iffD1 [OF run_Cons_Inr])
  have split: "\<And>r. (\<exists>xs e ys sx. e0 # es = xs @ e # ys \<and> run s xs = Inr sx \<and> handled sx e \<and>
          (join_named e r \<or> mutation_named e r))
      \<longleftrightarrow> (handled s e0 \<and> (join_named e0 r \<or> mutation_named e0 r))
          \<or> (\<exists>xs e ys sx. es = xs @ e # ys \<and> run s1 xs = Inr sx \<and> handled sx e \<and>
                (join_named e r \<or> mutation_named e r))"
  proof -
    fix r
    show "?thesis r" (is "?L \<longleftrightarrow> ?A \<or> ?B")
    proof
      assume ?L
      then obtain xs e ys sx where d: "e0 # es = xs @ e # ys" and rx: "run s xs = Inr sx"
        and h: "handled sx e" and n: "join_named e r \<or> mutation_named e r" by blast
      show "?A \<or> ?B"
      proof (cases xs)
        case Nil
        with d rx h n show ?thesis by simp
      next
        case (Cons x xs')
        with d have "es = xs' @ e # ys" and x: "x = e0" by simp_all
        moreover from rx Cons x st have "run s1 xs' = Inr sx" by simp
        ultimately have "es = xs' @ e # ys \<and> run s1 xs' = Inr sx \<and> handled sx e
            \<and> (join_named e r \<or> mutation_named e r)"
          using h n by simp
        then have ?B by blast
        then show ?thesis ..
      qed
    next
      assume "?A \<or> ?B"
      then show ?L
      proof
        assume ?A
        then have "e0 # es = [] @ e0 # es \<and> run s [] = Inr s \<and> handled s e0
            \<and> (join_named e0 r \<or> mutation_named e0 r)"
          by simp
        then show ?L by blast
      next
        assume ?B
        then obtain xs e ys sx where d: "es = xs @ e # ys" and rx: "run s1 xs = Inr sx"
          and h: "handled sx e" and n: "join_named e r \<or> mutation_named e r" by blast
        then have "e0 # es = (e0 # xs) @ e # ys \<and> run s (e0 # xs) = Inr sx \<and> handled sx e
            \<and> (join_named e r \<or> mutation_named e r)"
          using st by simp
        then show ?L by blast
      qed
    qed
  qed
  have "dom (documents s') = dom (documents s1) \<union>
       {r. \<exists>xs e ys sx. es = xs @ e # ys \<and> run s1 xs = Inr sx \<and> handled sx e \<and>
            (join_named e r \<or> mutation_named e r)}"
    by (rule Cons.IH [OF rn])
  also have "\<dots> = dom (documents s) \<union>
       {r. \<exists>xs e ys sx. e0 # es = xs @ e # ys \<and> run s xs = Inr sx \<and> handled sx e \<and>
            (join_named e r \<or> mutation_named e r)}"
    unfolding dom_documents_step [OF st] using split by blast
  finally show ?case .
qed

lemma documents_step_unnamed:
  assumes "step s e = Inr (s', out)" and "documents s r = Some d" and "\<not> mutation_named e r"
  shows "documents s' r = Some d"
  using assms(2,3) unfolding documents_step [OF assms(1)]
  by (auto simp: mutation_named_def
      split: event.splits payload.splits option.splits jsval.splits if_splits)

lemma documents_run_unnamed:
  assumes "run s evs = Inr s'" and "documents s r = Some d"
    and "\<forall>e \<in> set evs. \<not> mutation_named e r"
  shows "documents s' r = Some d"
  using assms
proof (induction evs arbitrary: s)
  case Nil
  then show ?case by simp
next
  case (Cons e es)
  from Cons.prems(1) obtain s1 out where st: "step s e = Inr (s1, out)" and rn: "run s1 es = Inr s'"
    by (blast dest: iffD1 [OF run_Cons_Inr])
  have "documents s1 r = Some d"
    using documents_step_unnamed [OF st Cons.prems(2)] Cons.prems(3) by simp
  from Cons.IH [OF rn this] Cons.prems(3) show ?case by simp
qed

text \<open>Timestamps.\<close>

lemma updatedAt_step:
  assumes "step s e = Inr (s', out)"
    and "\<forall>r d. documents s r = Some d \<longrightarrow> updatedAt d \<le> fst e"
  shows "(\<forall>r d. documents s' r = Some d \<longrightarrow> updatedAt d \<le> fst e)
     \<and> (\<forall>r d. documents s r = Some d \<longrightarrow>
           (\<exists>d'. documents s' r = Some d' \<and> updatedAt d \<le> updatedAt d'))"
  using assms(2) unfolding documents_step [OF assms(1)]
  by (auto split: event.splits payload.splits option.splits jsval.splits if_splits)

lemma updatedAt_run:
  assumes "run s evs = Inr s'" and "sorted (map fst evs)"
    and "\<forall>r d. documents s r = Some d \<longrightarrow> updatedAt d \<le> T"
    and "\<forall>e \<in> set evs. T \<le> fst e"
    and "documents s r = Some d"
  shows "\<exists>d'. documents s' r = Some d' \<and> updatedAt d \<le> updatedAt d'"
  using assms
proof (induction evs arbitrary: s T d)
  case Nil
  then show ?case by simp
next
  case (Cons e es)
  from Cons.prems(1) obtain s1 out where st: "step s e = Inr (s1, out)" and rn: "run s1 es = Inr s'"
    by (blast dest: iffD1 [OF run_Cons_Inr])
  have bound: "\<forall>r d. documents s r = Some d \<longrightarrow> updatedAt d \<le> fst e"
    using Cons.prems(3,4) by fastforce
  note stp = updatedAt_step [OF st bound]
  from stp Cons.prems(5) obtain d1 where d1: "documents s1 r = Some d1" "updatedAt d \<le> updatedAt d1"
    by blast
  have "\<exists>d'. documents s' r = Some d' \<and> updatedAt d1 \<le> updatedAt d'"
  proof (rule Cons.IH [where T = "fst e", OF rn])
    show "sorted (map fst es)" using Cons.prems(2) by simp
    show "\<forall>r d. documents s1 r = Some d \<longrightarrow> updatedAt d \<le> fst e" using stp by blast
    show "\<forall>e' \<in> set es. fst e \<le> fst e'" using Cons.prems(2) by simp
    show "documents s1 r = Some d1" by (rule d1)
  qed
  with d1 show ?case by fastforce
qed

lemma updatedAt_bounded:
  assumes "run s evs = Inr s'" and "sorted (map fst evs)"
    and "\<forall>r d. documents s r = Some d \<longrightarrow> updatedAt d \<le> T"
    and "\<forall>e \<in> set evs. T \<le> fst e"
    and "\<forall>e \<in> set evs. fst e \<le> U" and "T \<le> U"
  shows "\<forall>r d. documents s' r = Some d \<longrightarrow> updatedAt d \<le> U"
  using assms
proof (induction evs arbitrary: s T)
  case Nil
  then show ?case by fastforce
next
  case (Cons e es)
  from Cons.prems(1) obtain s1 out where st: "step s e = Inr (s1, out)" and rn: "run s1 es = Inr s'"
    by (blast dest: iffD1 [OF run_Cons_Inr])
  have bound: "\<forall>r d. documents s r = Some d \<longrightarrow> updatedAt d \<le> fst e"
    using Cons.prems(3,4) by fastforce
  note stp = updatedAt_step [OF st bound]
  show ?case
  proof (rule Cons.IH [where T = "fst e", OF rn])
    show "sorted (map fst es)" using Cons.prems(2) by simp
    show "\<forall>r d. documents s1 r = Some d \<longrightarrow> updatedAt d \<le> fst e" using stp by blast
    show "\<forall>e' \<in> set es. fst e \<le> fst e'" using Cons.prems(2) by simp
    show "\<forall>e' \<in> set es. fst e' \<le> U" using Cons.prems(5) by simp
    show "fst e \<le> U" using Cons.prems(5) by simp
  qed
qed

text \<open>A live socket is in the room named by its own id.\<close>

lemma own_room_step:
  assumes "step s e = Inr (s', out)" and "\<forall>q \<in> set (sockets s). q \<in> rooms s q"
  shows "\<forall>q \<in> set (sockets s'). q \<in> rooms s' q"
proof -
  obtain now p ev where e: "e = (now, p, ev)"
    by (cases e) auto
  show ?thesis
  proof (cases ev)
    case OnConnection
    then show ?thesis using assms
      by (auto simp: e connection_def split: if_splits)
  next
    case (OnJoinRoom arg)
    then show ?thesis using assms
      by (cases arg)
        (auto simp: e join_room_def socket_join_def Let_def split: if_splits option.splits)
  next
    case (OnCodeChange arg)
    then show ?thesis using assms
      by (cases arg) (auto simp: e code_change_def split: if_splits option.splits jsval.splits)
  next
    case (OnCursorUpdate arg)
    then show ?thesis using assms
      by (cases arg) (auto simp: e cursor_update_def split: if_splits option.splits)
  next
    case OnDisconnect
    then show ?thesis using assms
      by (auto simp: e disconnect_def Let_def split: if_splits option.splits)
  qed
qed

lemma own_room_run:
  assumes "run s evs = Inr s'" and "\<forall>q \<in> set (sockets s). q \<in> rooms s q"
  shows "\<forall>q \<in> set (sockets s'). q \<in> rooms s' q"
  using assms
proof (induction evs arbitrary: s)
  case Nil
  then show ?case by simp
next
  case (Cons e es)
  from Cons.prems(1) obtain s1 out where st: "step s e = Inr (s1, out)" and rn: "run s1 es = Inr s'"
    by (blast dest: iffD1 [OF run_Cons_Inr])
  from Cons.IH [OF rn own_room_step [OF st Cons.prems(2)]] show ?case .
qed

lemma own_room_reachable:
  assumes "run init evs = Inr s" and "q \<in> set (sockets s)"
  shows "q \<in> rooms s q"
  using own_room_run [OF assms(1)] assms(2) by (simp add: init_def)

text \<open>A socket stays live, and in the rooms it is in, until its disconnect.\<close>

lemma stays_step:
  assumes "step s e = Inr (s', out)" and "p \<in> set (sockets s)" and "\<not> disconnect_of e p"
  shows "p \<in> set (sockets s') \<and> rooms s p \<subseteq> rooms s' p"
proof -
  obtain now q ev where e: "e = (now, q, ev)"
    by (cases e) auto
  show ?thesis
  proof (cases ev)
    case OnConnection
    then show ?thesis using assms
      by (auto simp: e connection_def split: if_splits)
  next
    case (OnJoinRoom arg)
    then show ?thesis using assms
      by (cases arg)
        (auto simp: e join_room_def socket_join_def Let_def split: if_splits option.splits)
  next
    case (OnCodeChange arg)
    then show ?thesis using assms
      by (cases arg) (auto simp: e code_change_def split: if_splits option.splits jsval.splits)
  next
    case (OnCursorUpdate arg)
    then show ?thesis using assms
      by (cases arg) (auto simp: e cursor_update_def split: if_splits option.splits)
  next
    case OnDisconnect
    then show ?thesis using assms
      by (auto simp: e disconnect_def disconnect_of_def Let_def split: if_splits option.splits)
  qed
qed

lemma stays_run:
  assumes "run s evs = Inr s'" and "p \<in> set (sockets s)"
    and "\<forall>e \<in> set evs. \<not> disconnect_of e p"
  shows "p \<in> set (sockets s') \<and> rooms s p \<subseteq> rooms s' p"
  using assms
proof (induction evs arbitrary: s)
  case Nil
  then show ?case by simp
next
  case (Cons e es)
  from Cons.prems(1) obtain s1 out where st: "step s e = Inr (s1, out)" and rn: "run s1 es = Inr s'"
    by (blast dest: iffD1 [OF run_Cons_Inr])
  from stays_step [OF st Cons.prems(2)] Cons.prems(3)
  have 1: "p \<in> set (sockets s1)" and 2: "rooms s p \<subseteq> rooms s1 p" by simp_all
  from Cons.IH [OF rn 1] Cons.prems(3) 2 show ?case by auto
qed

text \<open>What an accepted join does.\<close>

lemma join_step:
  assumes "step s (now, p, OnJoinRoom (Payload (Some r))) = Inr (s', out)"
    and "p \<in> set (sockets s)" and "r \<noteq> []"
  shows "sockets s' = sockets s"
    and "rooms s' = (rooms s)(p := insert r (rooms s p))"
    and "activeRoom s' = (activeRoom s)(p := Some r)"
    and "out = (p, InitialState (case documents s r of
                                   None \<Rightarrow> \<lparr>content = [], updatedAt = now\<rparr> | Some d \<Rightarrow> d))
               # to_room s' p r (PeerJoined p)"
  using assms
  by (auto simp: join_room_def socket_join_def Let_def to_room_def split: option.splits)

lemma set_to_room:
  "(q, m') \<in> set (to_room s p r m) \<longleftrightarrow> q \<in> members s r \<and> p \<notin> rooms s q \<and> m' = m"
  by (auto simp: to_room_def members_def)

lemmas scen_defs = sync_defs demo_state_def rejoin_trace_def rejoin_state_def
  crossed_trace_def crossed_state_def outsider_trace_def outsider_state_def

lemma run_demo: "run init demo_trace = Inr demo_state"
  by (auto simp: scen_defs fun_eq_iff)


lemma run_crossed: "run init crossed_trace = Inr crossed_state"
  by (auto simp: scen_defs fun_eq_iff)

lemma run_outsider: "run init outsider_trace = Inr outsider_state"
  by (auto simp: scen_defs fun_eq_iff)

lemma join_room_returns: "\<exists>s' out. join_room now p (Payload roomId) s = Inr (s', out)"
  by (simp add: join_room_def Let_def case_prod_beta split: option.splits)

text \<open>Events with a payload object, and events without.\<close>

lemma non_string_content_rejected:
  assumes "\<forall>t. c \<noteq> JString t"
  shows "step s (now, p, OnCodeChange (Payload (roomId, c))) = Inr (s, [])"
  using assms by (cases c) (simp_all add: code_change_def split: option.splits)

lemma join_without_room_id_is_noop:
  assumes "roomId = None \<or> roomId = Some []"
  shows "step s (now, p, OnJoinRoom (Payload roomId)) = Inr (s, [])"
  using assms by (auto simp: join_room_def)

lemma no_payload_throws:
  assumes "p \<in> set (sockets s)"
  shows "step s (now, p, OnJoinRoom NoPayload) = Inl TypeError"
    and "step s (now, p, OnCodeChange NoPayload) = Inl TypeError"
    and "step s (now, p, OnCursorUpdate NoPayload) = Inl TypeError"
  using assms by (simp_all add: join_room_def code_change_def cursor_update_def)

lemma step_Inl_iff: "step s e = Inl TypeError \<longleftrightarrow> throws s e"
proof -
  obtain now p ev where e: "e = (now, p, ev)"
    by (cases e) auto
  show ?thesis
  proof (cases ev)
    case OnConnection
    then show ?thesis by (simp add: e throws_def)
  next
    case j: (OnJoinRoom arg)
    show ?thesis
    proof (cases arg)
      case NoPayload
      then show ?thesis by (simp add: e j throws_def handled_def join_room_def)
    next
      case (Payload roomId)
      obtain s' out where "join_room now p (Payload roomId) s = Inr (s', out)"
        using join_room_returns by blast
      then show ?thesis by (simp add: e j Payload throws_def handled_def)
    qed
  next
    case (OnCodeChange arg)
    then show ?thesis
      by (cases arg)
        (auto simp: e throws_def handled_def code_change_def
          split: option.splits jsval.splits if_splits)
  next
    case (OnCursorUpdate arg)
    then show ?thesis
      by (cases arg)
        (auto simp: e throws_def handled_def cursor_update_def split: option.splits if_splits)
  next
    case OnDisconnect
    then show ?thesis by (simp add: e throws_def)
  qed
qed

lemma run_Inl_iff:
  "run s evs = Inl TypeError \<longleftrightarrow>
     (\<exists>xs e ys sx. evs = xs @ e # ys \<and> run s xs = Inr sx \<and> throws sx e)"
proof (induction evs arbitrary: s)
  case Nil
  show ?case by simp
next
  case (Cons e0 es)
  show ?case
  proof (cases "step s e0")
    case (Inl err)
    then have t: "throws s e0"
      using step_Inl_iff [of s e0] by (cases err) simp
    have "e0 # es = [] @ e0 # es \<and> run s [] = Inr s \<and> throws s e0"
      using t by simp
    then have "\<exists>xs e ys sx. e0 # es = xs @ e # ys \<and> run s xs = Inr sx \<and> throws sx e"
      by blast
    moreover have "run s (e0 # es) = Inl TypeError"
      using Inl by (cases err) simp
    ultimately show ?thesis by simp
  next
    case (Inr res)
    obtain s1 out where res: "res = (s1, out)" by (cases res)
    with Inr have st: "step s e0 = Inr (s1, out)" by simp
    then have nt: "\<not> throws s e0"
      using step_Inl_iff [of s e0] by simp
    have "(\<exists>xs e ys sx. e0 # es = xs @ e # ys \<and> run s xs = Inr sx \<and> throws sx e)
        \<longleftrightarrow> (\<exists>xs e ys sx. es = xs @ e # ys \<and> run s1 xs = Inr sx \<and> throws sx e)"
      (is "?L \<longleftrightarrow> ?R")
    proof
      assume ?L
      then obtain xs e ys sx where d: "e0 # es = xs @ e # ys" and rx: "run s xs = Inr sx"
        and t: "throws sx e" by blast
      show ?R
      proof (cases xs)
        case Nil
        with d rx t nt show ?thesis by simp
      next
        case (Cons x xs')
        with d have "es = xs' @ e # ys" and "x = e0" by simp_all
        with rx Cons st t have "es = xs' @ e # ys \<and> run s1 xs' = Inr sx \<and> throws sx e"
          by simp
        then show ?thesis by blast
      qed
    next
      assume ?R
      then obtain xs e ys sx where "es = xs @ e # ys" and "run s1 xs = Inr sx" and "throws sx e"
        by blast
      with st have "e0 # es = (e0 # xs) @ e # ys \<and> run s (e0 # xs) = Inr sx \<and> throws sx e"
        by simp
      then show ?L by blast
    qed
    moreover have "run s (e0 # es) = run s1 es"
      using st by simp
    ultimately show ?thesis using Cons.IH [of s1] by simp
  qed
qed

text \<open>
  Membership in terms of the trace: a socket is a member of \<open>r\<close> exactly when it is live
  and either \<open>r\<close> is its own id, or it has joined \<open>r\<close> and not disconnected since.
\<close>

lemma enters_step:
  assumes "step s1 e = Inr (s, out)" and "q \<in> set (sockets s)" and "r \<in> rooms s q" and "r \<noteq> q"
    and "\<not> (q \<in> set (sockets s1) \<and> r \<in> rooms s1 q)"
  shows "handled s1 e \<and> fst (snd e) = q \<and> join_named e r"
proof -
  obtain now p ev where e: "e = (now, p, ev)"
    by (cases e) auto
  show ?thesis
  proof (cases ev)
    case OnConnection
    then show ?thesis using assms
      by (auto simp: e connection_def split: if_splits)
  next
    case (OnJoinRoom arg)
    then show ?thesis using assms
      by (cases arg)
        (auto simp: e handled_def join_named_def join_room_def socket_join_def Let_def
          split: if_splits option.splits)
  next
    case (OnCodeChange arg)
    then show ?thesis using assms
      by (cases arg) (auto simp: e code_change_def split: if_splits option.splits jsval.splits)
  next
    case (OnCursorUpdate arg)
    then show ?thesis using assms
      by (cases arg) (auto simp: e cursor_update_def split: if_splits option.splits)
  next
    case OnDisconnect
    then show ?thesis using assms
      by (auto simp: e disconnect_def Let_def split: if_splits option.splits)
  qed
qed

lemma disconnect_step:
  assumes "step s1 e = Inr (s, out)" and "q \<in> set (sockets s1)" and "disconnect_of e q"
  shows "q \<notin> set (sockets s)"
  using assms
  by (cases e) (auto simp: disconnect_of_def disconnect_def Let_def split: option.splits if_splits)

lemma member_iff_joined:
  assumes "run init evs = Inr s"
  shows "q \<in> members s r \<longleftrightarrow>
     q \<in> set (sockets s) \<and>
     (r = q \<or>
      (\<exists>xs e ys sx. evs = xs @ e # ys \<and> run init xs = Inr sx \<and> handled sx e \<and>
         fst (snd e) = q \<and> join_named e r \<and> (\<forall>e' \<in> set ys. \<not> disconnect_of e' q)))"
    (is "?M \<longleftrightarrow> ?L \<and> (?O \<or> ?J evs)")
proof
  assume ?M
  then have live: "q \<in> set (sockets s)" and mem: "r \<in> rooms s q"
    by (simp_all add: members_def)
  have "r \<noteq> q \<Longrightarrow> ?J evs"
    using assms live mem
  proof (induction evs arbitrary: s rule: rev_induct)
    case Nil
    then have "s = init" by simp
    with Nil.prems(3) show ?case by (simp add: init_def)
  next
    case (snoc e es)
    from snoc.prems(2) obtain s1 out where r1: "run init es = Inr s1" and st: "step s1 e = Inr (s, out)"
      by (blast dest: iffD1 [OF run_snoc_Inr])
    show ?case
    proof (cases "q \<in> set (sockets s1) \<and> r \<in> rooms s1 q")
      case True
      from snoc.IH [OF snoc.prems(1) r1] True obtain xs e' ys sx where
        d: "es = xs @ e' # ys" and rx: "run init xs = Inr sx" and h: "handled sx e'"
        and f: "fst (snd e') = q" and j: "join_named e' r"
        and n: "\<forall>e'' \<in> set ys. \<not> disconnect_of e'' q"
        by blast
      have "\<not> disconnect_of e q"
        using disconnect_step [OF st] True snoc.prems(3) by blast
      with n have "\<forall>e'' \<in> set (ys @ [e]). \<not> disconnect_of e'' q" by simp
      moreover from d have "es @ [e] = xs @ e' # (ys @ [e])" by simp
      ultimately show ?thesis using rx h f j by blast
    next
      case False
      from enters_step [OF st snoc.prems(3,4,1) False]
      have "handled s1 e" "fst (snd e) = q" "join_named e r" by simp_all
      then have "es @ [e] = es @ e # [] \<and> run init es = Inr s1 \<and> handled s1 e \<and>
         fst (snd e) = q \<and> join_named e r \<and> (\<forall>e' \<in> set []. \<not> disconnect_of e' q)"
        using r1 by simp
      then show ?thesis by blast
    qed
  qed
  with live show "?L \<and> (?O \<or> ?J evs)" by blast
next
  assume a: "?L \<and> (?O \<or> ?J evs)"
  then have live: "q \<in> set (sockets s)" by simp
  from a consider ?O | "?J evs" by blast
  then have "r \<in> rooms s q"
  proof cases
    case 1
    with own_room_reachable [OF assms live] show ?thesis by simp
  next
    case 2
    then obtain xs e ys sx where d: "evs = xs @ e # ys" and rx: "run init xs = Inr sx"
      and h: "handled sx e" and f: "fst (snd e) = q" and j: "join_named e r"
      and n: "\<forall>e' \<in> set ys. \<not> disconnect_of e' q"
      by blast
    from assms d rx have "run sx (e # ys) = Inr s"
      by (simp add: run_append del: run.simps)
    then obtain s1 out where st: "step sx e = Inr (s1, out)" and ry: "run s1 ys = Inr s"
      by (blast dest: iffD1 [OF run_Cons_Inr])
    obtain now where e: "e = (now, q, OnJoinRoom (Payload (Some r)))" and rne: "r \<noteq> []"
      using f j by (cases e) (auto simp: join_named_def)
    have lq: "q \<in> set (sockets sx)"
      using h e by (simp add: handled_def)
    from join_step(1,2) [OF st [unfolded e] lq rne] lq
    have "q \<in> set (sockets s1)" and "r \<in> rooms s1 q" by simp_all
    with stays_run [OF ry _ n] show ?thesis by auto
  qed
  with live show ?M by (simp add: members_def)
qed

subsection \<open>The room store\<close>

text \<open>
  Claim C1, as the server has it. As long as the process runs, a room entry exists in
  \<^verbatim>\<open>documents\<close> after a trace if and only if the trace holds a handled \<^verbatim>\<open>join_room\<close> event
  naming the room, or a handled \<^verbatim>\<open>code_change\<close> event naming it with a string as content. So
  cursor events, disconnects and rejected events never create an entry, while an accepted
  mutation does: the \<^verbatim>\<open>code_change\<close> handler stores the new content without looking
  whether the room exists. (A trace has a final state unless an event without payload has
  made a handler throw, lemma \<open>run_Inl_iff\<close>.)
\<close>

theorem room_exists_iff_join_or_mutation:
  assumes "run init evs = Inr s"
  shows "documents s r \<noteq> None \<longleftrightarrow>
     (\<exists>xs e ys sx. evs = xs @ e # ys \<and> run init xs = Inr sx \<and> handled sx e \<and>
        (join_named e r \<or> mutation_named e r))"
proof -
  have "r \<in> dom (documents s) \<longleftrightarrow>
     (\<exists>xs e ys sx. evs = xs @ e # ys \<and> run init xs = Inr sx \<and> handled sx e \<and>
        (join_named e r \<or> mutation_named e r))"
    unfolding dom_documents_run [OF assms] by (simp add: init_def)
  then show ?thesis by (simp add: dom_def)
qed

text \<open>
  An instance: after the trace of the scenario the room \<open>demo\<close>, which two connections
  joined, exists, and the room \<open>other\<close>, which no event names, does not.
\<close>

theorem room_exists_iff_join_or_mutation_witness:
  "run init demo_trace = Inr demo_state
   \<and> documents demo_state (js ''demo'') \<noteq> None
   \<and> (\<exists>xs e ys sx. demo_trace = xs @ e # ys \<and> run init xs = Inr sx \<and> handled sx e \<and>
         (join_named e (js ''demo'') \<or> mutation_named e (js ''demo'')))
   \<and> documents demo_state (js ''other'') = None
   \<and> \<not> (\<exists>xs e ys sx. demo_trace = xs @ e # ys \<and> run init xs = Inr sx \<and> handled sx e \<and>
         (join_named e (js ''other'') \<or> mutation_named e (js ''other'')))"
proof -
  have ex: "documents demo_state (js ''demo'') \<noteq> None"
    by (simp add: scen_defs)
  have nex: "documents demo_state (js ''other'') = None"
    by (simp add: scen_defs)
  from run_demo ex nex
    room_exists_iff_join_or_mutation [OF run_demo, of "js ''demo''"]
    room_exists_iff_join_or_mutation [OF run_demo, of "js ''other''"]
  show ?thesis by blast
qed

text \<open>
  Claim C1 as it is worded fails: one connection that sends a \<^verbatim>\<open>code_change\<close> for the room
  \<open>r\<close>, without any join in the trace, creates the entry of \<open>r\<close>.
\<close>

theorem room_created_without_join:
  "run init
     [(0, js ''a'', OnConnection),
      (1, js ''a'', OnCodeChange (Payload (Some (js ''r''), JString (js ''x''))))]
     = Inr \<lparr>documents = [js ''r'' \<mapsto> \<lparr>content = js ''x'', updatedAt = 1\<rparr>],
            sockets = [js ''a''],
            activeRoom = activeRoom init,
            rooms = (rooms init)(js ''a'' := {js ''a''})\<rparr>
   \<and> \<not> join_named (0, js ''a'', OnConnection) (js ''r'')
   \<and> \<not> join_named (1, js ''a'', OnCodeChange (Payload (Some (js ''r''), JString (js ''x'')))) (js ''r'')"
  by (auto simp: sync_defs fun_eq_iff)

subsection \<open>Joining twice\<close>




subsection \<open>Mutations\<close>

text \<open>
  Claim C3, as the server has it. In a reachable state let a live connection \<open>p\<close> send
  \<^verbatim>\<open>code_change\<close> with the non-empty room id \<open>r\<close> and the string \<open>c\<close>. The entry of \<open>r\<close>
  becomes \<open>c\<close>, and \<^verbatim>\<open>code_change\<close> with content \<open>c\<close> goes to exactly the live sockets that
  are in the Socket.IO room \<open>r\<close> and not in the room named by the id of \<open>p\<close>: never to
  \<open>p\<close>, to every other member of \<open>r\<close> that has not joined the room of that name, and to
  nobody else. Whether \<open>r\<close> is the recorded \<^verbatim>\<open>activeRoom\<close> of a receiver plays no part.
  After any further events without an accepted mutation naming \<open>r\<close>, a join to \<open>r\<close> by
  a live connection \<open>q\<close> returns to \<open>q\<close> exactly one snapshot, with content \<open>c\<close>.
\<close>

theorem accepted_mutation_broadcast_and_snapshot:
  assumes "run init xs = Inr s" and "p \<in> set (sockets s)" and "r \<noteq> []"
    and "run (s\<lparr>documents := (documents s)(r \<mapsto> \<lparr>content = c, updatedAt = now\<rparr>)\<rparr>) evs = Inr s2"
    and "\<forall>e \<in> set evs. \<not> mutation_named e r"
    and "q \<in> set (sockets s2)"
  shows "(\<exists>out. step s (now, p, OnCodeChange (Payload (Some r, JString c)))
              = Inr (s\<lparr>documents := (documents s)(r \<mapsto> \<lparr>content = c, updatedAt = now\<rparr>)\<rparr>, out)
            \<and> (\<forall>q' m. (q', m) \<in> set out \<longleftrightarrow>
                  q' \<in> members s r \<and> p \<notin> rooms s q' \<and> m = CodeChange c)
            \<and> (\<forall>m. (p, m) \<notin> set out))
    \<and> (\<exists>s3 out'. step s2 (now', q, OnJoinRoom (Payload (Some r))) = Inr (s3, out')
            \<and> (\<forall>d. (q, InitialState d) \<in> set out' \<longleftrightarrow> d = \<lparr>content = c, updatedAt = now\<rparr>))"
proof -
  let ?s1 = "s\<lparr>documents := (documents s)(r \<mapsto> \<lparr>content = c, updatedAt = now\<rparr>)\<rparr>"
  have st: "step s (now, p, OnCodeChange (Payload (Some r, JString c)))
      = Inr (?s1, to_room s p r (CodeChange c))"
    using assms(2,3) by (simp add: code_change_def)
  have own: "p \<in> rooms s p"
    using own_room_reachable [OF assms(1,2)] .
  have bc: "\<forall>q' m. (q', m) \<in> set (to_room s p r (CodeChange c)) \<longleftrightarrow>
      q' \<in> members s r \<and> p \<notin> rooms s q' \<and> m = CodeChange c"
    by (simp add: set_to_room)
  then have self: "\<forall>m. (p, m) \<notin> set (to_room s p r (CodeChange c))"
    using own by blast
  have "documents ?s1 r = Some \<lparr>content = c, updatedAt = now\<rparr>"
    by simp
  from documents_run_unnamed [OF assms(4) this assms(5)]
  have doc: "documents s2 r = Some \<lparr>content = c, updatedAt = now\<rparr>" .
  obtain s3 out' where j: "step s2 (now', q, OnJoinRoom (Payload (Some r))) = Inr (s3, out')"
    using assms(6) join_room_returns [of now' q "Some r" s2] by auto
  have "out' = (q, InitialState \<lparr>content = c, updatedAt = now\<rparr>) # to_room s3 q r (PeerJoined q)"
    using join_step(4) [OF j assms(6,3)] doc by simp
  then have snap: "\<forall>d. (q, InitialState d) \<in> set out' \<longleftrightarrow> d = \<lparr>content = c, updatedAt = now\<rparr>"
    by (auto simp: to_room_def)
  from st bc self j snap show ?thesis by blast
qed

text \<open>
  The scenario of the specification: \<open>A\<close> and \<open>B\<close> are in \<open>demo\<close>, \<open>A\<close> sends the content
  \<open>x=1\<close>; \<open>B\<close> and nobody else receives it, and \<open>C\<close>, joining later, gets the snapshot
  with \<open>x=1\<close>.
\<close>

theorem accepted_mutation_broadcast_and_snapshot_witness:
  "run init demo_trace = Inr demo_state
   \<and> js ''A'' \<in> set (sockets demo_state) \<and> js ''demo'' \<noteq> []
   \<and> run (demo_state\<lparr>documents := (documents demo_state)
              (js ''demo'' \<mapsto> \<lparr>content = js ''x=1'', updatedAt = 6\<rparr>)\<rparr>)
        [(7, js ''B'', OnCursorUpdate (Payload (Some (js ''demo''), JNull)))]
       = Inr (demo_state\<lparr>documents := (documents demo_state)
              (js ''demo'' \<mapsto> \<lparr>content = js ''x=1'', updatedAt = 6\<rparr>)\<rparr>)
   \<and> \<not> mutation_named (7, js ''B'', OnCursorUpdate (Payload (Some (js ''demo''), JNull))) (js ''demo'')
   \<and> js ''C'' \<in> set (sockets demo_state)
   \<and> step demo_state (6, js ''A'', OnCodeChange (Payload (Some (js ''demo''), JString (js ''x=1''))))
       = Inr (demo_state\<lparr>documents := (documents demo_state)
                (js ''demo'' \<mapsto> \<lparr>content = js ''x=1'', updatedAt = 6\<rparr>)\<rparr>,
              [(js ''B'', CodeChange (js ''x=1''))])
   \<and> (\<exists>s3. step (demo_state\<lparr>documents := (documents demo_state)
                (js ''demo'' \<mapsto> \<lparr>content = js ''x=1'', updatedAt = 6\<rparr>)\<rparr>)
              (8, js ''C'', OnJoinRoom (Payload (Some (js ''demo''))))
       = Inr (s3, [(js ''C'', InitialState \<lparr>content = js ''x=1'', updatedAt = 6\<rparr>),
                   (js ''A'', PeerJoined (js ''C'')), (js ''B'', PeerJoined (js ''C''))]))"
proof -
  let ?s1 = "demo_state\<lparr>documents := (documents demo_state)
              (js ''demo'' \<mapsto> \<lparr>content = js ''x=1'', updatedAt = 6\<rparr>)\<rparr>"
  have h2: "js ''A'' \<in> set (sockets demo_state)"
    by (simp add: scen_defs)
  have h3: "js ''demo'' \<noteq> []"
    by (simp add: js_def)
  have h4: "run ?s1 [(7, js ''B'', OnCursorUpdate (Payload (Some (js ''demo''), JNull)))] = Inr ?s1"
    by (simp add: scen_defs)
  have n: "\<not> mutation_named (7, js ''B'', OnCursorUpdate (Payload (Some (js ''demo''), JNull))) (js ''demo'')"
    by (simp add: mutation_named_def)
  then have h5: "\<forall>e \<in> set [(7, js ''B'', OnCursorUpdate (Payload (Some (js ''demo''), JNull)))].
      \<not> mutation_named e (js ''demo'')"
    by simp
  have h6: "js ''C'' \<in> set (sockets ?s1)"
    by (simp add: scen_defs)
  have c: "js ''C'' \<in> set (sockets demo_state)"
    by (simp add: scen_defs)
  have bc: "step demo_state (6, js ''A'', OnCodeChange (Payload (Some (js ''demo''), JString (js ''x=1''))))
       = Inr (?s1, [(js ''B'', CodeChange (js ''x=1''))])"
    by (simp add: scen_defs)
  have jn: "\<exists>s3. step ?s1 (8, js ''C'', OnJoinRoom (Payload (Some (js ''demo''))))
       = Inr (s3, [(js ''C'', InitialState \<lparr>content = js ''x=1'', updatedAt = 6\<rparr>),
                   (js ''A'', PeerJoined (js ''C'')), (js ''B'', PeerJoined (js ''C''))])"
    by (simp add: scen_defs)
  from accepted_mutation_broadcast_and_snapshot [OF run_demo h2 h3 h4 h5 h6, of 8]
    run_demo h2 h3 h4 n c bc jn
  show ?thesis by blast
qed

text \<open>
  Claim C3 as it is worded fails. \<open>A\<close> has joined the room named by the id of \<open>B\<close> and
  then \<open>demo\<close>, which is its recorded room; \<open>C\<close> has joined \<open>demo\<close> and then \<open>other\<close>,
  which is its recorded room. The \<^verbatim>\<open>code_change\<close> that \<open>B\<close> sends for \<open>demo\<close> is delivered
  to \<open>C\<close> only: not to \<open>A\<close>, which is bound to \<open>demo\<close>, and to \<open>C\<close>, whose recorded room
  is another.
\<close>

theorem bound_member_misses_broadcast:
  "run init crossed_trace = Inr crossed_state
   \<and> activeRoom crossed_state (js ''A'') = Some (js ''demo'')
   \<and> js ''A'' \<in> members crossed_state (js ''demo'')
   \<and> activeRoom crossed_state (js ''C'') = Some (js ''other'')
   \<and> js ''demo'' \<noteq> js ''other''
   \<and> step crossed_state (9, js ''B'', OnCodeChange (Payload (Some (js ''demo''), JString (js ''x''))))
       = Inr (crossed_state
                \<lparr>documents := (documents crossed_state)
                   (js ''demo'' \<mapsto> \<lparr>content = js ''x'', updatedAt = 9\<rparr>)\<rparr>,
              [(js ''C'', CodeChange (js ''x''))])"
  using run_crossed by (simp add: scen_defs)

text \<open>
  Claim C4: a \<^verbatim>\<open>code_change\<close> event whose content is not a string is rejected without any
  effect and without an error. The handler does so for every event that carries a payload
  (lemma \<open>non_string_content_rejected\<close>: same state, no message), but not for an event
  without payload, whose content is no string either: the destructuring of the parameter
  throws before the check is reached, and the process exits. Here \<open>A\<close> sends such an event
  in the scenario.
\<close>

theorem code_change_without_payload_throws:
  "run init demo_trace = Inr demo_state
   \<and> js ''A'' \<in> set (sockets demo_state)
   \<and> step demo_state (6, js ''A'', OnCodeChange NoPayload) = Inl TypeError
   \<and> run init (demo_trace @ [(6, js ''A'', OnCodeChange NoPayload)]) = Inl TypeError"
  using run_demo by (simp add: run_append) (simp add: scen_defs)

subsection \<open>Joins without a room id\<close>

text \<open>
  Claim C6: a \<^verbatim>\<open>join_room\<close> event whose room id is absent or empty is a silent no-op. The
  handler does so for every event that carries a payload (lemma
  \<open>join_without_room_id_is_noop\<close>: same state, no message), but not for an event without
  payload, which has no room id either: the destructuring of the parameter throws before
  \<^verbatim>\<open>if (!roomId) return\<close> is reached, and the process exits. Here \<open>C\<close> sends such an event
  in the scenario.
\<close>

theorem join_without_payload_throws:
  "run init demo_trace = Inr demo_state
   \<and> js ''C'' \<in> set (sockets demo_state)
   \<and> step demo_state (6, js ''C'', OnJoinRoom NoPayload) = Inl TypeError
   \<and> run init (demo_trace @ [(6, js ''C'', OnJoinRoom NoPayload)]) = Inl TypeError"
  using run_demo by (simp add: run_append) (simp add: scen_defs)

subsection \<open>Cursor events\<close>



subsection \<open>Timestamps\<close>

text \<open>
  Claim C8. Along a trace whose clock readings do not decrease, an accepted mutation of a
  room \<open>r\<close> that has a snapshot \<open>d\<close> sets the snapshot to the new content with
  \<^verbatim>\<open>updatedAt\<close> the current reading, which is not earlier than the \<^verbatim>\<open>updatedAt\<close> of \<open>d\<close>;
  and whatever events follow, the room keeps a snapshot whose \<^verbatim>\<open>updatedAt\<close> is not earlier
  than that reading, in every state the trace reaches.
\<close>

theorem updatedAt_nondecreasing:
  assumes clock: "sorted (map fst (xs @ (now, p, OnCodeChange (Payload (Some r, JString c))) # ys))"
    and start: "run init xs = Inr s"
    and live: "p \<in> set (sockets s)" and room: "r \<noteq> []"
    and before: "documents s r = Some d"
  shows "(\<exists>s1. run init (xs @ [(now, p, OnCodeChange (Payload (Some r, JString c)))]) = Inr s1
           \<and> documents s1 r = Some \<lparr>content = c, updatedAt = now\<rparr>)
    \<and> updatedAt d \<le> now
    \<and> (\<forall>s2. run init (xs @ (now, p, OnCodeChange (Payload (Some r, JString c))) # ys) = Inr s2
          \<longrightarrow> (\<exists>d'. documents s2 r = Some d' \<and> now \<le> updatedAt d'))"
proof -
  let ?e = "(now, p, OnCodeChange (Payload (Some r, JString c)))"
  let ?s1 = "s\<lparr>documents := (documents s)(r \<mapsto> \<lparr>content = c, updatedAt = now\<rparr>)\<rparr>"
  have sx: "sorted (map fst xs)" and xs_le: "\<forall>e \<in> set xs. fst e \<le> now"
    and sy: "sorted (map fst ys)" and ys_ge: "\<forall>e \<in> set ys. now \<le> fst e"
    using clock by (auto simp: sorted_append)
  have st: "step s ?e = Inr (?s1, to_room s p r (CodeChange c))"
    using live room by (simp add: code_change_def)
  have after: "documents ?s1 r = Some \<lparr>content = c, updatedAt = now\<rparr>"
    by simp
  have first: "run init (xs @ [?e]) = Inr ?s1"
    using start st by (simp add: run_append)
  have bound_xs: "\<forall>r d. documents s r = Some d \<longrightarrow> updatedAt d \<le> now"
  proof (cases xs)
    case Nil
    with start have "s = init" by simp
    then show ?thesis by (simp add: init_def)
  next
    case (Cons x xs')
    have "fst x \<le> now" using xs_le Cons by simp
    moreover have "\<forall>e \<in> set xs. fst x \<le> fst e" using sx Cons by auto
    moreover have "\<forall>r d. documents init r = Some d \<longrightarrow> updatedAt d \<le> fst x"
      by (simp add: init_def)
    ultimately show ?thesis
      using updatedAt_bounded [OF start sx, of "fst x" now] xs_le by blast
  qed
  then have le: "updatedAt d \<le> now" using before by blast
  have bound_s1: "\<forall>r d. documents ?s1 r = Some d \<longrightarrow> updatedAt d \<le> now"
    using updatedAt_step [OF st] bound_xs by simp
  have later: "\<exists>d'. documents s2 r = Some d' \<and> now \<le> updatedAt d'"
    if "run init (xs @ ?e # ys) = Inr s2" for s2
  proof -
    from that start st have "run ?s1 ys = Inr s2"
      by (simp add: run_append)
    from updatedAt_run [OF this sy bound_s1 ys_ge after] show ?thesis by simp
  qed
  from first after le later show ?thesis by blast
qed

text \<open>
  An instance: \<open>demo\<close>, created at 4, is mutated at 6 and at 9.
\<close>

theorem updatedAt_nondecreasing_witness:
  "sorted (map fst (demo_trace
       @ (6, js ''A'', OnCodeChange (Payload (Some (js ''demo''), JString (js ''x=1''))))
       # [(9, js ''B'', OnCodeChange (Payload (Some (js ''demo''), JString (js ''y''))))]))
   \<and> run init demo_trace = Inr demo_state
   \<and> js ''A'' \<in> set (sockets demo_state) \<and> js ''demo'' \<noteq> []
   \<and> documents demo_state (js ''demo'') = Some \<lparr>content = [], updatedAt = 4\<rparr>
   \<and> (\<exists>s1. run init (demo_trace
          @ [(6, js ''A'', OnCodeChange (Payload (Some (js ''demo''), JString (js ''x=1''))))]) = Inr s1
        \<and> documents s1 (js ''demo'') = Some \<lparr>content = js ''x=1'', updatedAt = 6\<rparr>)
   \<and> updatedAt \<lparr>content = [], updatedAt = 4\<rparr> \<le> 6
   \<and> run init (demo_trace
       @ (6, js ''A'', OnCodeChange (Payload (Some (js ''demo''), JString (js ''x=1''))))
       # [(9, js ''B'', OnCodeChange (Payload (Some (js ''demo''), JString (js ''y''))))])
      = Inr (demo_state\<lparr>documents := [js ''demo'' \<mapsto> \<lparr>content = js ''y'', updatedAt = 9\<rparr>]\<rparr>)"
proof -
  have h1: "sorted (map fst (demo_trace
       @ (6, js ''A'', OnCodeChange (Payload (Some (js ''demo''), JString (js ''x=1''))))
       # [(9, js ''B'', OnCodeChange (Payload (Some (js ''demo''), JString (js ''y''))))]))"
    by (simp add: demo_trace_def)
  have h3: "js ''A'' \<in> set (sockets demo_state)"
    by (simp add: scen_defs)
  have h4: "js ''demo'' \<noteq> []"
    by (simp add: js_def)
  have h5: "documents demo_state (js ''demo'') = Some \<lparr>content = [], updatedAt = 4\<rparr>"
    by (simp add: scen_defs)
  have last: "run init (demo_trace
       @ (6, js ''A'', OnCodeChange (Payload (Some (js ''demo''), JString (js ''x=1''))))
       # [(9, js ''B'', OnCodeChange (Payload (Some (js ''demo''), JString (js ''y''))))])
      = Inr (demo_state\<lparr>documents := [js ''demo'' \<mapsto> \<lparr>content = js ''y'', updatedAt = 9\<rparr>]\<rparr>)"
    by (auto simp: run_append run_demo) (auto simp: scen_defs fun_eq_iff)
  from updatedAt_nondecreasing [OF h1 run_demo h3 h4 h5] h1 run_demo h3 h4 h5 last
  show ?thesis by simp
qed

subsection \<open>No membership check\<close>

text \<open>
  Claim C9, as the server has it. A \<^verbatim>\<open>code_change\<close> event with a non-empty room id \<open>r\<close>
  and a string \<open>c\<close>, from a live connection \<open>p\<close> that is not in the room \<open>r\<close>, is applied
  all the same: the entry of \<open>r\<close> becomes \<open>c\<close> with the current time, and \<^verbatim>\<open>code_change\<close>
  with \<open>c\<close> goes to the members of \<open>r\<close>, except those that are in the room named by the
  id of \<open>p\<close>.
\<close>

theorem mutation_without_membership:
  assumes "p \<in> set (sockets s)" and "r \<noteq> []" and "r \<notin> rooms s p"
  shows "step s (now, p, OnCodeChange (Payload (Some r, JString c))) =
     Inr (s\<lparr>documents := (documents s)(r \<mapsto> \<lparr>content = c, updatedAt = now\<rparr>)\<rparr>,
          to_room s p r (CodeChange c))
    \<and> (\<forall>q m. (q, m) \<in> set (to_room s p r (CodeChange c)) \<longleftrightarrow>
          q \<in> members s r \<and> p \<notin> rooms s q \<and> m = CodeChange c)"
  using assms by (simp add: code_change_def set_to_room)

text \<open>
  An instance: \<open>C\<close>, which never joined \<open>demo\<close>, overwrites its content; \<open>A\<close> and \<open>B\<close>
  receive the change.
\<close>

theorem mutation_without_membership_witness:
  "run init demo_trace = Inr demo_state
   \<and> js ''C'' \<in> set (sockets demo_state) \<and> js ''demo'' \<noteq> []
   \<and> js ''demo'' \<notin> rooms demo_state (js ''C'')
   \<and> step demo_state (6, js ''C'', OnCodeChange (Payload (Some (js ''demo''), JString (js ''x=1''))))
       = Inr (demo_state\<lparr>documents := (documents demo_state)
                (js ''demo'' \<mapsto> \<lparr>content = js ''x=1'', updatedAt = 6\<rparr>)\<rparr>,
              to_room demo_state (js ''C'') (js ''demo'') (CodeChange (js ''x=1'')))
   \<and> to_room demo_state (js ''C'') (js ''demo'') (CodeChange (js ''x=1''))
       = [(js ''A'', CodeChange (js ''x=1'')), (js ''B'', CodeChange (js ''x=1''))]"
proof -
  have h1: "js ''C'' \<in> set (sockets demo_state)"
    by (simp add: scen_defs)
  have h2: "js ''demo'' \<noteq> []"
    by (simp add: js_def)
  have h3: "js ''demo'' \<notin> rooms demo_state (js ''C'')"
    by (simp add: scen_defs)
  have o: "to_room demo_state (js ''C'') (js ''demo'') (CodeChange (js ''x=1''))
       = [(js ''A'', CodeChange (js ''x=1'')), (js ''B'', CodeChange (js ''x=1''))]"
    by (simp add: scen_defs)
  from mutation_without_membership [OF h1 h2 h3, of 6 "js ''x=1''"] run_demo h1 h2 h3 o
  show ?thesis by simp
qed

text \<open>
  Claim C9 as it is worded fails on "broadcast to the members". \<open>C\<close> has joined nothing,
  \<open>A\<close> is in \<open>demo\<close> and in the room named by the id of \<open>C\<close>, \<open>B\<close> is in \<open>demo\<close>. The
  \<^verbatim>\<open>code_change\<close> that \<open>C\<close> sends for \<open>demo\<close> is stored, and delivered to \<open>B\<close> only: the
  member \<open>A\<close> does not receive it.
\<close>

theorem member_misses_outsider_broadcast:
  "run init outsider_trace = Inr outsider_state
   \<and> js ''demo'' \<notin> rooms outsider_state (js ''C'')
   \<and> js ''A'' \<in> members outsider_state (js ''demo'')
   \<and> js ''B'' \<in> members outsider_state (js ''demo'')
   \<and> step outsider_state (7, js ''C'', OnCodeChange (Payload (Some (js ''demo''), JString (js ''x''))))
       = Inr (outsider_state
                \<lparr>documents := (documents outsider_state)
                   (js ''demo'' \<mapsto> \<lparr>content = js ''x'', updatedAt = 7\<rparr>)\<rparr>,
              [(js ''B'', CodeChange (js ''x''))])"
  using run_outsider by (simp add: scen_defs)

section \<open>The recursion bound of \<^verbatim>\<open>JSON.parse\<close>\<close>

text \<open>
  Every successful step of the parser consumes at least one character, so the bound
  \<open>2 * length t + 2\<close> of \<open>JSON_parse\<close> is never what makes it stop: any larger bound gives
  the same result.
\<close>

lemma length_skip_ws: "length (skip_ws t) \<le> length t"
  by (simp add: skip_ws_def length_dropWhile_le)

lemma json_chars_shorter: "json_chars acc t = Some (str, r) \<Longrightarrow> length r < length t"
proof (induction acc t rule: json_chars.induct)
  case (1 acc)
  then show ?case by simp
next
  case (2 acc c)
  then show ?case by (simp split: if_splits)
next
  case (3 acc c e es)
  show ?case
  proof (cases "c = 34")
    case True
    with 3 show ?thesis by auto
  next
    case c34: False
    show ?thesis
    proof (cases "c = 92")
      case c92: True
      show ?thesis
      proof (cases "e = 117")
        case e117: True
        from "3.prems" c34 c92 e117 obtain h1 h2 h3 h4 r' a b c' d where
          es: "es = h1 # h2 # h3 # h4 # r'" and
          hx: "hex_value h1 = Some a" "hex_value h2 = Some b" "hex_value h3 = Some c'"
            "hex_value h4 = Some d" and
          rec: "json_chars ((((a * 16 + b) * 16 + c') * 16 + d) # acc) r' = Some (str, r)"
          by (auto split: list.splits option.splits)
        have "length r < length r'"
          by (rule "3.IH"(1) [OF c34 c92 e117 es refl refl refl refl hx(1) refl hx(2) refl hx(3) hx(4) rec])
        with es show ?thesis by simp
      next
        case e117: False
        from "3.prems" c34 c92 e117 obtain u where
          u: "unescape e = Some u" and rec: "json_chars (u # acc) es = Some (str, r)"
          by (auto split: option.splits)
        from "3.IH"(2) [OF c34 c92 e117 u rec]
        have "length r < length es" .
        then show ?thesis by simp
      qed
    next
      case c92: False
      from "3.prems" c34 c92 have c32: "\<not> c < 32" and rec: "json_chars (c # acc) (e # es) = Some (str, r)"
        by (auto split: if_splits)
      from "3.IH"(3) [OF c34 c92 c32 rec]
      show ?thesis by simp
    qed
  qed
qed

lemma json_int_part_nonempty: "json_int_part t \<noteq> [] \<Longrightarrow> t \<noteq> []"
  by (auto simp: json_int_part_def)

lemma length_json_int_part: "length (json_int_part t) \<le> length t"
  by (auto simp: json_int_part_def length_takeWhile_le split: list.splits)

lemma json_number_shorter: "json_number t = Some (x, r) \<Longrightarrow> length r < length t"
proof -
  assume a: "json_number t = Some (x, r)"
  define t1 where "t1 = (if take 1 t = [45] then drop 1 t else t)"
  define ip where "ip = json_int_part t1"
  define t2 where "t2 = drop (length ip) t1"
  define has_frac where "has_frac = (take 1 t2 = [46])"
  define fp where "fp = (if has_frac then takeWhile is_digit (drop 1 t2) else [])"
  define t3 where "t3 = (if has_frac then drop (Suc (length fp)) t2 else t2)"
  define has_exp where "has_exp = (take 1 t3 = [101] \<or> take 1 t3 = [69])"
  define t4 where "t4 = drop 1 t3"
  define t5 where "t5 = (if take 1 t4 = [45] \<or> take 1 t4 = [43] then drop 1 t4 else t4)"
  define ep where "ep = (if has_exp then takeWhile is_digit t5 else [])"
  define t6 where "t6 = (if has_exp then drop (length ep) t5 else t3)"
  obtain y where eq: "json_number t =
      (if ip = [] \<or> (has_frac \<and> fp = []) \<or> (has_exp \<and> ep = []) then None
       else Some (y, t6))"
    by (simp only: json_number_def Let_def ip_def t1_def t2_def has_frac_def fp_def t3_def
        has_exp_def t4_def t5_def ep_def t6_def)
  from a have ipne: "ip \<noteq> []" and r: "r = t6"
    unfolding eq by (simp_all split: if_splits)
  have "t1 \<noteq> []" using ipne json_int_part_nonempty ip_def by blast
  have l1: "length t1 \<le> length t" by (simp add: t1_def)
  have "length ip \<le> length t1" by (simp add: ip_def length_json_int_part)
  then have l2: "length t2 < length t1" using ipne \<open>t1 \<noteq> []\<close> by (simp add: t2_def)
  have l3: "length t3 \<le> length t2" by (simp add: t3_def)
  have l4: "length t4 \<le> length t3" by (simp add: t4_def)
  have l5: "length t5 \<le> length t4" by (simp add: t5_def)
  have l6: "length t6 \<le> length t3" using l4 l5 by (auto simp: t6_def)
  from r l1 l2 l3 l6 show ?thesis by simp
qed

lemma skip_ws_Cons_shorter: "skip_ws t = c # cs \<Longrightarrow> length cs < length t"
  using length_skip_ws [of t] by simp

lemma json_value_Suc_shorter:
  assumes m: "\<And>acc t ms r. json_members n acc t = Some (ms, r) \<Longrightarrow> length r < length t"
    and e: "\<And>acc t vs r. json_elements n acc t = Some (vs, r) \<Longrightarrow> length r < length t"
    and a: "json_value (Suc n) t = Some (v, r)"
  shows "length r < length t"
proof (cases "skip_ws t")
  case Nil
  with a show ?thesis by simp
next
  case (Cons c cs)
  note lt = skip_ws_Cons_shorter [OF Cons]
  consider (obj) "c = 123" | (arr) "c \<noteq> 123" "c = 91" | (str) "c \<noteq> 123" "c \<noteq> 91" "c = 34"
    | (other) "c \<noteq> 123" "c \<noteq> 91" "c \<noteq> 34"
    by blast
  then show ?thesis
  proof cases
    case obj
    show ?thesis
    proof (cases "skip_ws cs")
      case Nil
      with a Cons obj show ?thesis by simp
    next
      case (Cons d ds)
      note lt2 = skip_ws_Cons_shorter [OF Cons]
      show ?thesis
      proof (cases "d = 125")
        case True
        with a \<open>skip_ws t = c # cs\<close> obj Cons have "r = ds" by simp
        with lt lt2 show ?thesis by simp
      next
        case False
        with a \<open>skip_ws t = c # cs\<close> obj Cons obtain kvs where "json_members n [] cs = Some (kvs, r)"
          by (auto split: option.splits)
        from m [OF this] lt show ?thesis by simp
      qed
    qed
  next
    case arr
    show ?thesis
    proof (cases "skip_ws cs")
      case Nil
      with a Cons arr show ?thesis by simp
    next
      case (Cons d ds)
      note lt2 = skip_ws_Cons_shorter [OF Cons]
      show ?thesis
      proof (cases "d = 93")
        case True
        with a \<open>skip_ws t = c # cs\<close> arr Cons have "r = ds" by simp
        with lt lt2 show ?thesis by simp
      next
        case False
        with a \<open>skip_ws t = c # cs\<close> arr Cons obtain vs where "json_elements n [] cs = Some (vs, r)"
          by (auto split: option.splits)
        from e [OF this] lt show ?thesis by simp
      qed
    qed
  next
    case str
    with a Cons obtain s where "json_chars [] cs = Some (s, r)"
      by (auto split: option.splits)
    from json_chars_shorter [OF this] lt show ?thesis by simp
  next
    case other
    have len: "length (c # cs) \<le> length t"
      using length_skip_ws [of t] Cons by simp
    from a Cons other consider "r = drop 4 (c # cs)" | "r = drop 5 (c # cs)"
      | x where "json_number (c # cs) = Some (x, r)"
      by (auto split: if_splits option.splits)
    then show ?thesis
    proof cases
      case 1
      with len show ?thesis by simp
    next
      case 2
      with len show ?thesis by simp
    next
      case 3
      from json_number_shorter [OF this] len show ?thesis by simp
    qed
  qed
qed

lemma json_elements_Suc_shorter:
  assumes v: "\<And>t v r. json_value n t = Some (v, r) \<Longrightarrow> length r < length t"
    and e: "\<And>acc t vs r. json_elements n acc t = Some (vs, r) \<Longrightarrow> length r < length t"
    and a: "json_elements (Suc n) acc t = Some (vs, r)"
  shows "length r < length t"
proof -
  from a obtain x r1 where x: "json_value n t = Some (x, r1)"
    by (auto split: option.splits)
  note l1 = v [OF x]
  from a x obtain c cs where c: "skip_ws r1 = c # cs"
    by (cases "skip_ws r1") auto
  note l2 = skip_ws_Cons_shorter [OF c]
  from a x c consider "c = 44" "json_elements n (acc @ [x]) cs = Some (vs, r)" | "r = cs"
    by (auto split: if_splits)
  then show ?thesis
  proof cases
    case 1
    from e [OF 1(2)] l1 l2 show ?thesis by simp
  next
    case 2
    with l1 l2 show ?thesis by simp
  qed
qed

lemma json_members_Suc_shorter:
  assumes v: "\<And>t v r. json_value n t = Some (v, r) \<Longrightarrow> length r < length t"
    and m: "\<And>acc t ms r. json_members n acc t = Some (ms, r) \<Longrightarrow> length r < length t"
    and a: "json_members (Suc n) acc t = Some (ms, r)"
  shows "length r < length t"
proof -
  from a obtain c cs where c: "skip_ws t = c # cs"
    by (cases "skip_ws t") auto
  note l0 = skip_ws_Cons_shorter [OF c]
  from a c have c34: "c = 34"
    by (auto split: if_splits)
  from a c c34 obtain k r1 where k: "json_chars [] cs = Some (k, r1)"
    by (auto split: option.splits)
  note l1 = json_chars_shorter [OF k]
  from a c c34 k obtain d ds where d: "skip_ws r1 = d # ds"
    by (cases "skip_ws r1") auto
  note l2 = skip_ws_Cons_shorter [OF d]
  from a c c34 k d have d58: "d = 58"
    by (auto split: if_splits)
  from a c c34 k d d58 obtain x r2 where x: "json_value n ds = Some (x, r2)"
    by (auto split: option.splits)
  note l3 = v [OF x]
  from a c c34 k d d58 x obtain e es where e: "skip_ws r2 = e # es"
    by (cases "skip_ws r2") auto
  note l4 = skip_ws_Cons_shorter [OF e]
  from a c c34 k d d58 x e
  consider "e = 44" "json_members n (obj_put k x acc) es = Some (ms, r)" | "r = es"
    by (auto split: if_splits)
  then show ?thesis
  proof cases
    case 1
    from m [OF 1(2)] l0 l1 l2 l3 l4 show ?thesis by simp
  next
    case 2
    with l0 l1 l2 l3 l4 show ?thesis by simp
  qed
qed

lemma json_rest_shorter:
  "(\<forall>t v r. json_value n t = Some (v, r) \<longrightarrow> length r < length t)
   \<and> (\<forall>acc t vs r. json_elements n acc t = Some (vs, r) \<longrightarrow> length r < length t)
   \<and> (\<forall>acc t ms r. json_members n acc t = Some (ms, r) \<longrightarrow> length r < length t)"
proof (induction n)
  case 0
  show ?case by simp
next
  case (Suc n)
  then have v: "\<And>t v r. json_value n t = Some (v, r) \<Longrightarrow> length r < length t"
    and e: "\<And>acc t vs r. json_elements n acc t = Some (vs, r) \<Longrightarrow> length r < length t"
    and m: "\<And>acc t ms r. json_members n acc t = Some (ms, r) \<Longrightarrow> length r < length t"
    by blast+
  have V: "length r < length t" if "json_value (Suc n) t = Some (v, r)" for t v r
    by (rule json_value_Suc_shorter [OF _ _ that]; (erule m | erule e))
  have E: "length r < length t" if "json_elements (Suc n) acc t = Some (vs, r)" for acc t vs r
    by (rule json_elements_Suc_shorter [OF _ _ that]; (erule v | erule e))
  have M: "length r < length t" if "json_members (Suc n) acc t = Some (ms, r)" for acc t ms r
    by (rule json_members_Suc_shorter [OF _ _ that]; (erule v | erule m))
  from V E M show ?case by blast
qed

lemma json_value_shorter: "json_value n t = Some (v, r) \<Longrightarrow> length r < length t"
  using json_rest_shorter [of n] by blast

lemma json_fuel_step:
  "(\<forall>t. 2 * length t + 1 \<le> n \<longrightarrow> json_value (Suc n) t = json_value n t)
   \<and> (\<forall>acc t. 2 * length t + 2 \<le> n \<longrightarrow> json_elements (Suc n) acc t = json_elements n acc t)
   \<and> (\<forall>acc t. 2 * length t + 2 \<le> n \<longrightarrow> json_members (Suc n) acc t = json_members n acc t)"
proof (induction n)
  case 0
  show ?case by simp
next
  case (Suc n)
  then have v: "\<And>t. 2 * length t + 1 \<le> n \<Longrightarrow> json_value (Suc n) t = json_value n t"
    and e: "\<And>acc t. 2 * length t + 2 \<le> n \<Longrightarrow> json_elements (Suc n) acc t = json_elements n acc t"
    and m: "\<And>acc t. 2 * length t + 2 \<le> n \<Longrightarrow> json_members (Suc n) acc t = json_members n acc t"
    by blast+
  have V: "json_value (Suc (Suc n)) t = json_value (Suc n) t" if b: "2 * length t + 1 \<le> Suc n" for t
  proof (cases "skip_ws t")
    case Nil
    then show ?thesis by simp
  next
    case (Cons c cs)
    from skip_ws_Cons_shorter [OF Cons] b have "2 * length cs + 2 \<le> n" by simp
    then have M: "json_members (Suc n) [] cs = json_members n [] cs"
      and E: "json_elements (Suc n) [] cs = json_elements n [] cs"
      by (rule m, rule e)
    show ?thesis
      by (simp only: json_value.simps Cons list.case M E)
  qed
  have E: "json_elements (Suc (Suc n)) acc t = json_elements (Suc n) acc t"
    if b: "2 * length t + 2 \<le> Suc n" for acc t
  proof -
    note unf = json_elements.simps(2) [of "Suc n" acc t] json_elements.simps(2) [of n acc t]
    from b have "2 * length t + 1 \<le> n" by simp
    then have V': "json_value (Suc n) t = json_value n t" by (rule v)
    show ?thesis
    proof (cases "json_value n t")
      case None
      then show ?thesis by (simp only: unf V' option.case)
    next
      case (Some a)
      obtain x r where a: "a = (x, r)" by (cases a)
      from Some a have x: "json_value n t = Some (x, r)" by simp
      note l1 = json_value_shorter [OF x]
      show ?thesis
      proof (cases "skip_ws r")
        case Nil
        then show ?thesis by (simp only: unf V' x option.case prod.case list.case)
      next
        case (Cons c cs)
        from skip_ws_Cons_shorter [OF Cons] l1 b have "2 * length cs + 2 \<le> n" by simp
        then have E': "json_elements (Suc n) (acc @ [x]) cs = json_elements n (acc @ [x]) cs"
          by (rule e)
        show ?thesis
          by (simp only: unf V' x option.case prod.case Cons list.case E')
      qed
    qed
  qed
  have M: "json_members (Suc (Suc n)) acc t = json_members (Suc n) acc t"
    if b: "2 * length t + 2 \<le> Suc n" for acc t
  proof (cases "skip_ws t")
    case Nil
    note unf = json_members.simps(2) [of "Suc n" acc t] json_members.simps(2) [of n acc t]
    from Nil show ?thesis by (simp only: unf list.case)
  next
    case c: (Cons c cs)
    note unf = json_members.simps(2) [of "Suc n" acc t] json_members.simps(2) [of n acc t]
    note l0 = skip_ws_Cons_shorter [OF c]
    show ?thesis
    proof (cases "json_chars [] cs")
      case None
      then show ?thesis by (simp only: unf c list.case option.case)
    next
      case (Some a)
      obtain k r1 where "a = (k, r1)" by (cases a)
      with Some have k: "json_chars [] cs = Some (k, r1)" by simp
      note l1 = json_chars_shorter [OF k]
      show ?thesis
      proof (cases "skip_ws r1")
        case Nil
        then show ?thesis
          by (simp only: unf c list.case k option.case prod.case)
      next
        case d: (Cons d ds)
        note l2 = skip_ws_Cons_shorter [OF d]
        from l0 l1 l2 b have "2 * length ds + 1 \<le> n" by simp
        then have V': "json_value (Suc n) ds = json_value n ds" by (rule v)
        show ?thesis
        proof (cases "json_value n ds")
          case None
          then show ?thesis
            by (simp only: unf c list.case k option.case prod.case d V')
        next
          case (Some a')
          obtain x r2 where "a' = (x, r2)" by (cases a')
          with Some have x: "json_value n ds = Some (x, r2)" by simp
          note l3 = json_value_shorter [OF x]
          show ?thesis
          proof (cases "skip_ws r2")
            case Nil
            then show ?thesis
              by (simp only: unf c list.case k option.case prod.case d V' x)
          next
            case e': (Cons e' es)
            note l4 = skip_ws_Cons_shorter [OF e']
            from l0 l1 l2 l3 l4 b have "2 * length es + 2 \<le> n" by simp
            then have M': "json_members (Suc n) (obj_put k x acc) es = json_members n (obj_put k x acc) es"
              by (rule m)
            show ?thesis
              by (simp only: unf c list.case k option.case prod.case d V' x e' M')
          qed
        qed
      qed
    qed
  qed
  from V E M show ?case by blast
qed

lemma json_value_fuel:
  assumes "2 * length t + 1 \<le> n"
  shows "json_value (n + k) t = json_value n t"
proof (induction k)
  case 0
  show ?case by simp
next
  case (Suc k)
  have "2 * length t + 1 \<le> n + k" using assms by simp
  with json_fuel_step [of "n + k"] have "json_value (Suc (n + k)) t = json_value (n + k) t"
    by blast
  with Suc show ?case by simp
qed

lemma JSON_parse_fuel:
  assumes "2 * length t + 2 \<le> n"
  shows "JSON_parse t =
     (case json_value n t of
        None \<Rightarrow> None
      | Some (v, r) \<Rightarrow> if skip_ws r = [] then Some v else None)"
proof -
  from assms obtain k where n: "n = (2 * length t + 2) + k"
    using le_Suc_ex by blast
  have "json_value n t = json_value (2 * length t + 2) t"
    unfolding n by (rule json_value_fuel) simp
  then show ?thesis by (simp add: JSON_parse_def)
qed

section \<open>Properties of the completion endpoint\<close>

lemma JSON_parse_Hello: "JSON_parse (js ''Hello'') = None"
  by code_simp

lemma JSON_parse_42: "JSON_parse (js ''42'') = Some (JNumber 42)"
  by code_simp

text \<open>
  Claim C5, as the endpoint has it. With a credential configured, let the provider answer
  the request with the text \<open>T\<close>. If \<open>T\<close> is not empty and \<^verbatim>\<open>JSON.parse\<close> accepts it, the
  endpoint returns the parsed value, whatever its shape; if \<open>T\<close> is not empty and
  \<^verbatim>\<open>JSON.parse\<close> throws, it returns one completion whose \<^verbatim>\<open>insertText\<close> is \<open>T\<close> and whose
  \<^verbatim>\<open>displayText\<close> is \<^verbatim>\<open>Gemini suggestion\<close>; an empty \<open>T\<close> is answered with status 500.
\<close>

theorem completion_parse_or_wrap:
  assumes "GEMINI_API_KEY cfg = Some key" and "key \<noteq> []"
    and "post (provider_request (GEMINI_MODEL cfg) key
            (case req_code b of None \<Rightarrow> [] | Some c \<Rightarrow> c)
            (case req_language b of None \<Rightarrow> js ''typescript'' | Some l \<Rightarrow> l)
            (case req_cursor b of None \<Rightarrow> 0 | Some n \<Rightarrow> n)
            (req_instructions b)) = Resolved (Some T)"
  shows "(T \<noteq> [] \<longrightarrow> (\<forall>v. parse T = Some v \<longrightarrow>
            post_completions cfg post parse (Some b) = \<lparr>status = 200, body = v\<rparr>))
    \<and> (T \<noteq> [] \<longrightarrow> parse T = None \<longrightarrow>
          post_completions cfg post parse (Some b) =
            \<lparr>status = 200,
             body = JObject
               [(js ''completions'',
                 JArray
                   [JObject
                      [(js ''insertText'', JString T),
                       (js ''displayText'', JString (js ''Gemini suggestion''))]])]\<rparr>)
    \<and> (T = [] \<longrightarrow>
          post_completions cfg post parse (Some b) =
            \<lparr>status = 500,
             body = JObject [(js ''error'', JString (js ''No completion returned from Gemini''))]\<rparr>)"
  using assms
  by (simp add: post_completions_def completion_response_def wrapped_def error_response_def Let_def)

text \<open>
  The scenario of the specification: the provider answers \<^verbatim>\<open>Hello\<close>, which is not JSON, to
  the request \<^verbatim>\<open>{ code: "print(", language: "python", cursor: 6 }\<close>.
\<close>

theorem completion_parse_or_wrap_witness:
  "post_completions demo_config (provider_returning (js ''Hello'')) JSON_parse (Some demo_body) =
     \<lparr>status = 200,
      body = JObject
        [(js ''completions'',
          JArray
            [JObject
               [(js ''insertText'', JString (js ''Hello'')),
                (js ''displayText'', JString (js ''Gemini suggestion''))]])]\<rparr>
   \<and> JSON_parse (js ''Hello'') = None \<and> js ''Hello'' \<noteq> []"
proof -
  have k: "GEMINI_API_KEY demo_config = Some (js ''secret'')" "js ''secret'' \<noteq> []"
    by (simp_all add: demo_config_def js_def)
  have t: "js ''Hello'' \<noteq> []"
    by (simp add: js_def)
  have p: "provider_returning (js ''Hello'') (provider_request (GEMINI_MODEL demo_config) (js ''secret'')
            (case req_code demo_body of None \<Rightarrow> [] | Some c \<Rightarrow> c)
            (case req_language demo_body of None \<Rightarrow> js ''typescript'' | Some l \<Rightarrow> l)
            (case req_cursor demo_body of None \<Rightarrow> 0 | Some n \<Rightarrow> n)
            (req_instructions demo_body)) = Resolved (Some (js ''Hello''))"
    by (simp add: provider_returning_def)
  from completion_parse_or_wrap
         [of demo_config "js ''secret''" "provider_returning (js ''Hello'')" demo_body
            "js ''Hello''" JSON_parse]
       k p t JSON_parse_Hello
  show ?thesis by simp
qed

text \<open>
  Claim C5 as it is worded fails. The text \<^verbatim>\<open>42\<close> is JSON, not of the shape of a
  completions payload; the endpoint returns the number 42, not a completion that wraps the
  text. The empty text is not JSON; the endpoint answers it with status 500, not with a
  completion that wraps it.
\<close>

theorem parsed_json_of_other_shape_returned:
  "JSON_parse (js ''42'') = Some (JNumber 42)
   \<and> \<not> spec_completions_shape (JNumber 42)
   \<and> post_completions demo_config (provider_returning (js ''42'')) JSON_parse (Some demo_body)
       = \<lparr>status = 200, body = JNumber 42\<rparr>
   \<and> post_completions demo_config (provider_returning (js ''42'')) JSON_parse (Some demo_body)
       \<noteq> \<lparr>status = 200, body = wrapped (js ''42'')\<rparr>
   \<and> JSON_parse [] = None
   \<and> post_completions demo_config (provider_returning []) JSON_parse (Some demo_body)
       = \<lparr>status = 500,
          body = JObject [(js ''error'', JString (js ''No completion returned from Gemini''))]\<rparr>
   \<and> post_completions demo_config (provider_returning []) JSON_parse (Some demo_body)
       \<noteq> \<lparr>status = 200, body = wrapped []\<rparr>"
proof -
  have e: "JSON_parse [] = None"
    by code_simp
  have s: "\<not> spec_completions_shape (JNumber 42)"
    by (simp add: spec_completions_shape_def)
  have t: "js ''42'' \<noteq> []"
    by (simp add: js_def)
  have r1: "post_completions demo_config (provider_returning (js ''42'')) JSON_parse (Some demo_body)
       = \<lparr>status = 200, body = JNumber 42\<rparr>"
    using t
    by (simp add: post_completions_def completion_response_def provider_returning_def
        demo_config_def Let_def JSON_parse_42) (simp add: js_def)
  have r2: "post_completions demo_config (provider_returning []) JSON_parse (Some demo_body)
       = \<lparr>status = 500,
          body = JObject [(js ''error'', JString (js ''No completion returned from Gemini''))]\<rparr>"
    by (simp add: post_completions_def completion_response_def provider_returning_def
        demo_config_def Let_def error_response_def) (simp add: js_def)
  from JSON_parse_42 s r1 e r2 show ?thesis
    by (simp add: wrapped_def)
qed

text \<open>
  Claim C10. A request without a body is handled as the request with
  \<^verbatim>\<open>code = ""\<close>, \<^verbatim>\<open>language = "typescript"\<close>, \<^verbatim>\<open>cursor = 0\<close> and no instructions; a body
  that omits \<^verbatim>\<open>code\<close>, \<^verbatim>\<open>language\<close> or \<^verbatim>\<open>cursor\<close> is handled as the same body with the
  default in that field. With a credential configured the request is not refused: the
  response is what the provider's answer to the request built from the defaults gives.
\<close>

theorem omitted_fields_take_defaults:
  "post_completions cfg post parse None =
     post_completions cfg post parse
       (Some \<lparr>req_code = Some [], req_language = Some (js ''typescript''), req_cursor = Some 0,
              req_instructions = None\<rparr>)
   \<and> post_completions cfg post parse (Some (b\<lparr>req_code := None\<rparr>)) =
       post_completions cfg post parse (Some (b\<lparr>req_code := Some []\<rparr>))
   \<and> post_completions cfg post parse (Some (b\<lparr>req_language := None\<rparr>)) =
       post_completions cfg post parse (Some (b\<lparr>req_language := Some (js ''typescript'')\<rparr>))
   \<and> post_completions cfg post parse (Some (b\<lparr>req_cursor := None\<rparr>)) =
       post_completions cfg post parse (Some (b\<lparr>req_cursor := Some 0\<rparr>))
   \<and> (\<forall>key. GEMINI_API_KEY cfg = Some key \<and> key \<noteq> [] \<longrightarrow>
         post_completions cfg post parse None =
           completion_response parse
             (post (provider_request (GEMINI_MODEL cfg) key [] (js ''typescript'') 0 None)))"
  by (simp add: post_completions_def Let_def split: option.splits)

text \<open>
  An instance: a request without a body, with the credential configured and a provider
  that answers \<^verbatim>\<open>Hello\<close>.
\<close>

theorem omitted_fields_take_defaults_witness:
  "GEMINI_API_KEY demo_config = Some (js ''secret'') \<and> js ''secret'' \<noteq> []
   \<and> post_completions demo_config (provider_returning (js ''Hello'')) JSON_parse None =
       post_completions demo_config (provider_returning (js ''Hello'')) JSON_parse
         (Some \<lparr>req_code = Some [], req_language = Some (js ''typescript''), req_cursor = Some 0,
                req_instructions = None\<rparr>)
   \<and> post_completions demo_config (provider_returning (js ''Hello'')) JSON_parse None =
       completion_response JSON_parse
         (provider_returning (js ''Hello'')
            (provider_request (GEMINI_MODEL demo_config) (js ''secret'') [] (js ''typescript'') 0 None))
   \<and> completion_response JSON_parse
         (provider_returning (js ''Hello'')
            (provider_request (GEMINI_MODEL demo_config) (js ''secret'') [] (js ''typescript'') 0 None))
       = \<lparr>status = 200, body = wrapped (js ''Hello'')\<rparr>"
proof -
  have k: "GEMINI_API_KEY demo_config = Some (js ''secret'') \<and> js ''secret'' \<noteq> []"
    by (simp add: demo_config_def js_def)
  have t: "js ''Hello'' \<noteq> []"
    by (simp add: js_def)
  have r: "completion_response JSON_parse
         (provider_returning (js ''Hello'')
            (provider_request (GEMINI_MODEL demo_config) (js ''secret'') [] (js ''typescript'') 0 None))
       = \<lparr>status = 200, body = wrapped (js ''Hello'')\<rparr>"
    using t by (simp add: completion_response_def provider_returning_def JSON_parse_Hello)
  from omitted_fields_take_defaults
         [of demo_config "provider_returning (js ''Hello'')" JSON_parse demo_body] k r
  show ?thesis by blast
qed

end
